theory Spec2Isabelle
  imports Complex_Main "HOL-Library.Log_Nat"
begin

section \<open>The snake game of \<^verbatim>\<open>src/game.js\<close>: data model\<close>

text \<open>
  The game keeps its state in module-level variables; the model collects them in one
  record that every operation takes and returns. A cell is the object literal
  \<^verbatim>\<open>{ x, y }\<close>, modelled as the pair \<open>(x, y)\<close> with \<open>fst\<close> for \<^verbatim>\<open>.x\<close> and \<open>snd\<close>
  for \<^verbatim>\<open>.y\<close>. The snake is tail-first: \<^verbatim>\<open>snake[snake.length - 1]\<close> is the head.

  The rendering layer (meshes, scene, HUD text) is left out, except for the overlay
  message, which tells a lost game from a won one. \<^verbatim>\<open>Math.random()\<close> is an external
  source: \<open>rand\<close> is the sequence of numbers it will return and \<open>randPos\<close> counts the
  calls made so far. Cell coordinates, the score and the speed are small whole numbers
  and are kept as integers. Times, the accumulator and the step interval are doubles:
  they are kept as the real numbers they stand for, and every operation on them rounds
  its result to the nearest double, as IEEE 754 arithmetic does.
\<close>

type_synonym cell = "int \<times> int"

datatype js_error = TypeError

record game =
  snake :: "cell list"
  direction :: cell
  inputQueue :: "cell list"
  food :: "cell option"
  isPaused :: bool
  isGameOver :: bool
  score :: int
  highScore :: int
  movesPerSecond :: int
  lastTime :: real
  accumulator :: real
  centerMessage :: "string option"
  rand :: "nat \<Rightarrow> real"
  randPos :: nat

definition GRID_CELLS :: int where
  "GRID_CELLS = 24"

definition START_LENGTH :: int where
  "START_LENGTH = 4"

definition BASE_SPEED :: int where
  "BASE_SPEED = 6"

definition MAX_SPEED :: int where
  "MAX_SPEED = 14"

definition MAX_TRIES :: nat where
  "MAX_TRIES = 10000"

subsection \<open>Double arithmetic\<close>

text \<open>
  \<open>dbl x\<close> is the double nearest to \<open>x\<close>, the even mantissa winning a tie: with
  \<open>2 ^ e \<le> \<bar>x\<bar> < 2 ^ (e + 1)\<close> the doubles around \<open>x\<close> are the multiples of
  \<open>2 ^ (e - 52)\<close>, and below \<open>2 ^ (- 1022)\<close> the multiples of \<open>2 ^ (- 1074)\<close>. The
  numbers of the game stay far below \<open>2 ^ 1024\<close>, where a double would become
  \<^verbatim>\<open>Infinity\<close>; the only infinite value that occurs, \<^verbatim>\<open>1.0 / 0\<close>, is treated where it
  arises.
\<close>

definition pow2 :: "int \<Rightarrow> real" where
  "pow2 e = (if 0 \<le> e then 2 ^ nat e else 1 / 2 ^ nat (- e))"

text \<open>The exponent \<open>e\<close> with \<open>2 ^ e \<le> \<bar>x\<bar> < 2 ^ (e + 1)\<close>, for \<open>x\<close> other than 0.\<close>

definition expo :: "real \<Rightarrow> int" where
  "expo x = (if 1 \<le> \<bar>x\<bar> then bitlen \<lfloor>\<bar>x\<bar>\<rfloor> - 1 else - bitlen (\<lceil>1 / \<bar>x\<bar>\<rceil> - 1))"

definition round_even :: "real \<Rightarrow> int" where
  "round_even y =
     (if y - of_int \<lfloor>y\<rfloor> < 1 / 2 then \<lfloor>y\<rfloor>
      else if 1 / 2 < y - of_int \<lfloor>y\<rfloor> then \<lfloor>y\<rfloor> + 1
      else if even \<lfloor>y\<rfloor> then \<lfloor>y\<rfloor> else \<lfloor>y\<rfloor> + 1)"

definition dbl :: "real \<Rightarrow> real" where
  "dbl x =
     (if x = 0 then 0
      else of_int (round_even (x / pow2 (max (expo x) (- 1022) - 52))) *
             pow2 (max (expo x) (- 1022) - 52))"

subsection \<open>Utilities\<close>

definition setHighScore :: "int \<Rightarrow> game \<Rightarrow> game" where
  "setHighScore v s = s\<lparr>highScore := max (highScore s) v\<rparr>"

definition showCenterMessage :: "string \<Rightarrow> game \<Rightarrow> game" where
  "showCenterMessage t s = s\<lparr>centerMessage := Some t\<rparr>"

definition hideCenterMessage :: "game \<Rightarrow> game" where
  "hideCenterMessage s = s\<lparr>centerMessage := None\<rparr>"

text \<open>\<^verbatim>\<open>snake.some(s => s.x === x && s.y === y)\<close>\<close>

definition occupied :: "cell list \<Rightarrow> int \<Rightarrow> int \<Rightarrow> bool" where
  "occupied sn cx cy = list_ex (\<lambda>seg. fst seg = cx \<and> snd seg = cy) sn"

subsection \<open>Food placement\<close>

text \<open>
  \<^verbatim>\<open>randomInt(min, max)\<close> is \<^verbatim>\<open>Math.floor(Math.random() * (max - min + 1)) + min\<close>;
  the first argument of the model is the number \<^verbatim>\<open>Math.random()\<close> returned, and the
  product is a rounded one.
\<close>

definition randomInt :: "real \<Rightarrow> int \<Rightarrow> int \<Rightarrow> int" where
  "randomInt r lo hi = \<lfloor>dbl (r * real_of_int (hi - lo + 1))\<rfloor> + lo"

text \<open>The cell drawn by one pass of the loop body, from the two numbers at \<open>p\<close> and \<open>p + 1\<close>.\<close>

definition drawCell :: "(nat \<Rightarrow> real) \<Rightarrow> nat \<Rightarrow> cell" where
  "drawCell rnd p =
     (randomInt (rnd p) 0 (GRID_CELLS - 1), randomInt (rnd (p + 1)) 0 (GRID_CELLS - 1))"

text \<open>
  The \<^verbatim>\<open>do { ... } while (occupied && tries < 10000)\<close> loop. \<open>tries\<close> is the counter
  before the pass; the result is the last cell drawn and the position reached in the
  random sequence.
\<close>

function placeFood_loop :: "(nat \<Rightarrow> real) \<Rightarrow> cell list \<Rightarrow> nat \<Rightarrow> nat \<Rightarrow> cell \<times> nat" where
  "placeFood_loop rnd sn p tries =
     (if occupied sn (fst (drawCell rnd p)) (snd (drawCell rnd p)) \<and> tries + 1 < MAX_TRIES
      then placeFood_loop rnd sn (p + 2) (tries + 1)
      else (drawCell rnd p, p + 2))"
  by pat_completeness auto
termination
  by (relation "measure (\<lambda>(rnd, sn, p, tries). MAX_TRIES - tries)") auto

definition placeFood :: "game \<Rightarrow> game" where
  "placeFood s =
     (case placeFood_loop (rand s) (snake s) (randPos s) 0 of
        (c, p) \<Rightarrow> s\<lparr>food := Some c, randPos := p\<rparr>)"

subsection \<open>Restart\<close>

definition startSnake :: "cell list" where
  "startSnake =
     map (\<lambda>i. (GRID_CELLS div 2 - START_LENGTH div 2 + int i, GRID_CELLS div 2))
       [0 ..< nat START_LENGTH]"

definition resetGame :: "game \<Rightarrow> game" where
  "resetGame s =
     hideCenterMessage (placeFood (s\<lparr>
       snake := startSnake,
       direction := (1, 0),
       inputQueue := [],
       isPaused := False,
       isGameOver := False,
       score := 0,
       movesPerSecond := BASE_SPEED\<rparr>))"

subsection \<open>Input\<close>

definition willReverse :: "cell \<Rightarrow> cell \<Rightarrow> bool" where
  "willReverse cur nxt \<longleftrightarrow> fst cur + fst nxt = 0 \<and> snd cur + snd nxt = 0"

definition keyDirection :: "string \<Rightarrow> cell option" where
  "keyDirection code =
     (if code = ''ArrowUp'' \<or> code = ''KeyW'' then Some (0, -1)
      else if code = ''ArrowDown'' \<or> code = ''KeyS'' then Some (0, 1)
      else if code = ''ArrowLeft'' \<or> code = ''KeyA'' then Some (-1, 0)
      else if code = ''ArrowRight'' \<or> code = ''KeyD'' then Some (1, 0)
      else None)"

definition enqueueDirectionFromKey :: "string \<Rightarrow> game \<Rightarrow> game" where
  "enqueueDirectionFromKey code s =
     (case keyDirection code of
        None \<Rightarrow> s
      | Some nxt \<Rightarrow>
          if length (inputQueue s) = 0 \<and> \<not> willReverse (direction s) nxt
          then s\<lparr>inputQueue := inputQueue s @ [nxt]\<rparr>
          else s)"

subsection \<open>The simulation step\<close>

definition gameOver :: "game \<Rightarrow> game" where
  "gameOver s = showCenterMessage ''Spillet er over'' (s\<lparr>isGameOver := True\<rparr>)"

text \<open>The first statement of \<^verbatim>\<open>tick\<close>: one queued input becomes the direction.\<close>

definition consume :: "game \<Rightarrow> game" where
  "consume s =
     (if length (inputQueue s) > 0
      then s\<lparr>direction := hd (inputQueue s), inputQueue := tl (inputQueue s)\<rparr>
      else s)"

definition newHeadOf :: "game \<Rightarrow> cell" where
  "newHeadOf s =
     (fst (last (snake s)) + fst (direction s), snd (last (snake s)) + snd (direction s))"

definition outOfGrid :: "cell \<Rightarrow> bool" where
  "outOfGrid c \<longleftrightarrow> fst c < 0 \<or> fst c \<ge> GRID_CELLS \<or> snd c < 0 \<or> snd c \<ge> GRID_CELLS"

text \<open>The food branch of \<^verbatim>\<open>tick\<close>, after the new head has been pushed.\<close>

definition eat :: "game \<Rightarrow> game" where
  "eat s =
     placeFood
       ((setHighScore (score s + 1) (s\<lparr>score := score s + 1\<rparr>))
          \<lparr>movesPerSecond := min MAX_SPEED (BASE_SPEED + (score s + 1) div 4)\<rparr>)"

definition winCheck :: "game \<Rightarrow> game" where
  "winCheck s =
     (if int (length (snake s)) \<ge> GRID_CELLS * GRID_CELLS
      then (showCenterMessage ''Du vant!'' s)\<lparr>isGameOver := True\<rparr>
      else s)"

text \<open>
  \<^verbatim>\<open>tick\<close>. Reading \<^verbatim>\<open>head.x\<close> on an empty snake and \<^verbatim>\<open>food.x\<close> while food is
  still \<^verbatim>\<open>null\<close> throw a TypeError in JavaScript; both are error results here.
\<close>

definition tick :: "game \<Rightarrow> js_error + game" where
  "tick s =
     (if isPaused s \<or> isGameOver s then Inr s
      else
        let s1 = consume s in
        if snake s1 = [] then Inl TypeError
        else
          let newHead = newHeadOf s1 in
          if outOfGrid newHead then Inr (gameOver s1)
          else if occupied (snake s1) (fst newHead) (snd newHead) then Inr (gameOver s1)
          else
            let s2 = s1\<lparr>snake := snake s1 @ [newHead]\<rparr> in
            case food s2 of
              None \<Rightarrow> Inl TypeError
            | Some f \<Rightarrow>
                Inr (winCheck
                  (if fst newHead = fst f \<and> snd newHead = snd f
                   then eat s2
                   else s2\<lparr>snake := tl (snake s2)\<rparr>)))"

definition togglePause :: "game \<Rightarrow> game" where
  "togglePause s =
     (if isGameOver s then s
      else if \<not> isPaused s then showCenterMessage ''Pause'' (s\<lparr>isPaused := True\<rparr>)
      else hideCenterMessage (s\<lparr>isPaused := False\<rparr>))"

subsection \<open>The frame driver\<close>

text \<open>
  \<^verbatim>\<open>1.0 / movesPerSecond\<close>, a rounded quotient. Dividing by zero gives \<^verbatim>\<open>Infinity\<close> in
  JavaScript, which no accumulator reaches; it is \<open>None\<close> here.
\<close>

definition stepIntervalOf :: "int \<Rightarrow> real option" where
  "stepIntervalOf m = (if m = 0 then None else Some (dbl (1 / real_of_int m)))"

text \<open>
  The \<^verbatim>\<open>while (accumulator >= stepInterval)\<close> loop; \<^verbatim>\<open>accumulator -= stepInterval\<close> is
  a rounded difference. A loop that never ends, as with a negative interval, has the
  result \<open>None\<close>. An exception thrown by \<^verbatim>\<open>tick\<close> leaves the loop.
\<close>

partial_function (option) animate_loop :: "real option \<Rightarrow> game \<Rightarrow> (js_error + game) option" where
  "animate_loop iv s =
     (case iv of
        None \<Rightarrow> Some (Inr s)
      | Some v \<Rightarrow>
          if accumulator s \<ge> v
          then (case tick (s\<lparr>accumulator := dbl (accumulator s - v)\<rparr>) of
                  Inl e \<Rightarrow> Some (Inl e)
                | Inr s' \<Rightarrow> animate_loop iv s')
          else Some (Inr s))"

declare animate_loop.simps [code]

text \<open>
  \<^verbatim>\<open>Math.min(0.1, (ts - lastTime) / 1000 || 0)\<close>: the literal \<^verbatim>\<open>0.1\<close> is the double
  nearest to one tenth, the difference and the quotient are rounded, and \<^verbatim>\<open>|| 0\<close>
  replaces a zero or NaN quotient by zero, which changes nothing on finite numbers.
\<close>

definition frameDelta :: "real \<Rightarrow> game \<Rightarrow> real" where
  "frameDelta ts s = min (dbl (1 / 10)) (dbl (dbl (ts - lastTime s) / 1000))"

definition animate :: "real \<Rightarrow> game \<Rightarrow> (js_error + game) option" where
  "animate ts s =
     animate_loop (stepIntervalOf (movesPerSecond s))
       (s\<lparr>lastTime := ts, accumulator := dbl (accumulator s + frameDelta ts s)\<rparr>)"

subsection \<open>Events\<close>

text \<open>The \<^verbatim>\<open>keydown\<close> listener; the restart button calls \<^verbatim>\<open>resetGame\<close> directly.\<close>

definition keydown :: "string \<Rightarrow> game \<Rightarrow> game" where
  "keydown code s =
     (if code = ''Space'' \<or> code = ''KeyP'' then togglePause s
      else if code = ''KeyR'' then resetGame s
      else enqueueDirectionFromKey code s)"

subsection \<open>Runs of the program\<close>

text \<open>\<open>n\<close> calls of \<^verbatim>\<open>tick\<close> in a row; an exception ends the run.\<close>

fun ticks :: "nat \<Rightarrow> game \<Rightarrow> js_error + game" where
  "ticks 0 s = Inr s"
| "ticks (Suc n) s = (case tick s of Inl e \<Rightarrow> Inl e | Inr s' \<Rightarrow> ticks n s')"

text \<open>
  The accumulator after \<open>k\<close> passes of \<^verbatim>\<open>accumulator -= stepInterval\<close> with the
  interval \<open>v\<close>, starting from \<open>a\<close>.
\<close>

fun drain :: "real \<Rightarrow> real \<Rightarrow> nat \<Rightarrow> real" where
  "drain v a 0 = a"
| "drain v a (Suc k) = drain v (dbl (a - v)) k"

text \<open>
  The states the program can be in once \<^verbatim>\<open>resetGame\<close> has run: a restart from any
  state, then key presses, single simulation steps and whole frames in any order.
\<close>

inductive reachable :: "game \<Rightarrow> bool" where
  restart: "reachable (resetGame s)"
| key: "reachable s \<Longrightarrow> reachable (keydown code s)"
| step: "reachable s \<Longrightarrow> tick s = Inr s' \<Longrightarrow> reachable s'"
| frame: "reachable s \<Longrightarrow> animate ts s = Some (Inr s') \<Longrightarrow> reachable s'"

text \<open>
  The module-level initial values (lines 31 to 43), for a stored high score \<open>h\<close> and a
  random sequence \<open>rnd\<close>.
\<close>

definition boot :: "int \<Rightarrow> (nat \<Rightarrow> real) \<Rightarrow> game" where
  "boot h rnd =
     \<lparr>snake = [], direction = (1, 0), inputQueue = [], food = None, isPaused = False,
      isGameOver = False, score = 0, highScore = h, movesPerSecond = BASE_SPEED,
      lastTime = 0, accumulator = 0, centerMessage = None, rand = rnd, randPos = 0\<rparr>"

text \<open>A random sequence that starts with the given numbers and goes on with zeros.\<close>

definition randOf :: "real list \<Rightarrow> nat \<Rightarrow> real" where
  "randOf rs i = (if i < length rs then rs ! i else 0)"

declare placeFood_loop.simps [simp del]

text \<open>
  A position on the board for the examples: the initial values with the given snake,
  direction and food.
\<close>

definition position :: "cell list \<Rightarrow> cell \<Rightarrow> cell \<Rightarrow> game" where
  "position sn d f = (boot 0 (randOf []))\<lparr>snake := sn, direction := d, food := Some f\<rparr>"

text \<open>
  A run of bad luck for the examples: the first cell drawn is \<open>(0,0)\<close>, every later
  one is \<open>(10,12)\<close>, a cell of the start snake. \<open>stuckStart\<close> is the game after its
  first \<^verbatim>\<open>resetGame\<close> with these numbers.
\<close>

definition stuckRand :: "nat \<Rightarrow> real" where
  "stuckRand i = (if i < 2 then 0 else if even i then 7 / 16 else 25 / 48)"

definition stuckStart :: game where
  "stuckStart = resetGame (boot 0 stuckRand)"

text \<open>
  A late position for the examples: 27 cells, score 23, speed 11, the food one cell
  ahead of the head, and \<^verbatim>\<open>0.08\<close> in the accumulator. \<open>speedUpAfter\<close> is the same game
  one step later, at time 100, with the food eaten and placed again at \<open>(0,0)\<close>.
\<close>

definition speedUp :: game where
  "speedUp =
     \<lparr>snake = map (\<lambda>i. (int i, 5)) [0 ..< 24] @ [(23, 6), (22, 6), (21, 6)],
      direction = (- 1, 0), inputQueue = [], food = Some (20, 6), isPaused = False,
      isGameOver = False, score = 23, highScore = 23, movesPerSecond = 11,
      lastTime = 0, accumulator = dbl (2 / 25), centerMessage = None, rand = (randOf []), randPos = 0\<rparr>"

definition speedUpAfter :: game where
  "speedUpAfter =
     \<lparr>snake = map (\<lambda>i. (int i, 5)) [0 ..< 24] @ [(23, 6), (22, 6), (21, 6), (20, 6)],
      direction = (- 1, 0), inputQueue = [], food = Some (0, 0), isPaused = False,
      isGameOver = False, score = 24, highScore = 24, movesPerSecond = 12,
      lastTime = 100, accumulator = 3209838279871335 / 36028797018963968,
      centerMessage = None, rand = (randOf []), randPos = 2\<rparr>"

text \<open>
  A position at speed 10 for the examples: 20 cells in a row heading right, score 16,
  and \<^verbatim>\<open>0.25\<close> in the accumulator.
\<close>

definition cruise :: game where
  "cruise =
     \<lparr>snake = map (\<lambda>i. (int i, 5)) [0 ..< 20],
      direction = (1, 0), inputQueue = [], food = Some (0, 0), isPaused = False,
      isGameOver = False, score = 16, highScore = 16, movesPerSecond = 10,
      lastTime = 0, accumulator = 1 / 4, centerMessage = None, rand = (randOf []), randPos = 0\<rparr>"

text \<open>\<open>cruise\<close> two steps later, at time 50.\<close>

definition cruiseAfter :: game where
  "cruiseAfter =
     \<lparr>snake = map (\<lambda>i. (int i, 5)) [2 ..< 22],
      direction = (1, 0), inputQueue = [], food = Some (0, 0), isPaused = False,
      isGameOver = False, score = 16, highScore = 16, movesPerSecond = 10,
      lastTime = 50, accumulator = 900719925474099 / 9007199254740992,
      centerMessage = None, rand = (randOf []), randPos = 0\<rparr>"

text \<open>
  What every state after a restart satisfies: a snake that is not empty, lies inside
  the grid and has no cell twice, a food cell, at most one queued input, a score that
  is not negative and a positive speed.
\<close>

definition wellFormed :: "game \<Rightarrow> bool" where
  "wellFormed s \<longleftrightarrow>
     snake s \<noteq> [] \<and> list_all (\<lambda>c. \<not> outOfGrid c) (snake s) \<and> distinct (snake s) \<and>
     food s \<noteq> None \<and> length (inputQueue s) \<le> 1 \<and>
     0 \<le> score s \<and> 0 < movesPerSecond s"

section \<open>Basic facts\<close>

text \<open>
  Rounding a number whose binary exponent is known; the numbers of the examples are
  rounded with it.
\<close>

lemma pow2_pos: "0 < pow2 e"
  by (simp add: pow2_def)

lemma expo_eqI:
  assumes "pow2 e \<le> \<bar>x\<bar>" and "\<bar>x\<bar> < pow2 (e + 1)"
  shows "expo x = e"
proof (cases "1 \<le> \<bar>x\<bar>")
  case True
  have e: "0 \<le> e"
  proof (rule ccontr)
    assume "\<not> 0 \<le> e"
    then have "pow2 (e + 1) \<le> 1"
      by (simp add: pow2_def)
    with assms(2) True show False
      by simp
  qed
  from e assms(1) have "real_of_int (2 ^ nat e) \<le> \<bar>x\<bar>"
    by (simp add: pow2_def)
  then have lo: "2 ^ nat e \<le> \<lfloor>\<bar>x\<bar>\<rfloor>"
    by (simp only: le_floor_iff)
  from e assms(2) have "\<bar>x\<bar> < real_of_int (2 ^ nat (e + 1))"
    by (simp add: pow2_def)
  then have hi: "\<lfloor>\<bar>x\<bar>\<rfloor> < 2 ^ nat (e + 1)"
    by (simp only: floor_less_iff)
  from e have n: "nat (e + 1) - Suc 0 = nat e"
    by simp
  from e hi have "bitlen \<lfloor>\<bar>x\<bar>\<rfloor> \<le> e + 1"
    by (simp add: bitlen_le_iff_power)
  moreover from lo have "e + 1 \<le> bitlen \<lfloor>\<bar>x\<bar>\<rfloor>"
    by (simp add: bitlen_ge_iff_power n)
  ultimately show ?thesis
    using True by (simp add: expo_def)
next
  case False
  have pos: "0 < \<bar>x\<bar>"
    using assms(1) pow2_pos [of e] by linarith
  have e: "e < 0"
  proof (rule ccontr)
    assume "\<not> e < 0"
    then have "1 \<le> pow2 e"
      by (simp add: pow2_def)
    with assms(1) False show False
      by simp
  qed
  define k where "k = nat (- e)"
  from e have k: "0 < k" and ek: "e = - int k"
    by (simp_all add: k_def)
  have p1: "pow2 e = 1 / 2 ^ k"
    using e by (simp add: pow2_def k_def)
  have p2: "pow2 (e + 1) = 1 / 2 ^ (k - 1)"
  proof (cases "e = - 1")
    case True
    then show ?thesis by (simp add: pow2_def k_def)
  next
    case False
    with e have "e + 1 < 0" by simp
    moreover from this have "nat (- (e + 1)) = k - 1"
      by (simp add: k_def nat_diff_distrib)
    ultimately show ?thesis
      by (simp add: pow2_def)
  qed
  from assms(1) have "1 / 2 ^ k \<le> \<bar>x\<bar>"
    by (simp only: p1)
  with pos have "1 / \<bar>x\<bar> \<le> 2 ^ k"
    by (simp add: field_simps)
  then have "1 / \<bar>x\<bar> \<le> real_of_int (2 ^ k)"
    by simp
  then have hi: "\<lceil>1 / \<bar>x\<bar>\<rceil> \<le> 2 ^ k"
    by (simp only: ceiling_le_iff)
  from assms(2) have "\<bar>x\<bar> < 1 / 2 ^ (k - 1)"
    by (simp only: p2)
  with pos have "2 ^ (k - 1) < 1 / \<bar>x\<bar>"
    by (simp add: field_simps)
  then have "real_of_int (2 ^ (k - 1)) < 1 / \<bar>x\<bar>"
    by simp
  then have lo: "2 ^ (k - 1) < \<lceil>1 / \<bar>x\<bar>\<rceil>"
    by (simp only: less_ceiling_iff)
  from hi have "bitlen (\<lceil>1 / \<bar>x\<bar>\<rceil> - 1) \<le> int k"
    by (simp add: bitlen_le_iff_power)
  moreover from lo have "int k \<le> bitlen (\<lceil>1 / \<bar>x\<bar>\<rceil> - 1)"
    by (simp add: bitlen_ge_iff_power)
  ultimately show ?thesis
    using False by (simp add: expo_def ek)
qed

lemma dbl_at:
  assumes "pow2 e \<le> \<bar>x\<bar>" and "\<bar>x\<bar> < pow2 (e + 1)" and "- 1022 \<le> e"
  shows "dbl x = of_int (round_even (x / pow2 (e - 52))) * pow2 (e - 52)"
proof -
  from assms(1) pow2_pos [of e] have "x \<noteq> 0"
    by auto
  moreover from assms(1,2) have "expo x = e"
    by (rule expo_eqI)
  ultimately show ?thesis
    using assms(3) by (simp add: dbl_def max_def)
qed

lemma dbl_zero: "dbl 0 = 0"
  by (simp add: dbl_def)

lemma dbl_21_2: "dbl (21 / 2) = 21 / 2"
  by (subst dbl_at [where e = 3]) (simp_all add: pow2_def round_even_def)

lemma dbl_25_2: "dbl (25 / 2) = 25 / 2"
  by (subst dbl_at [where e = 3]) (simp_all add: pow2_def round_even_def)

lemma occupied_iff: "occupied sn (fst c) (snd c) \<longleftrightarrow> c \<in> set sn"
  by (auto simp: occupied_def list_ex_iff prod_eq_iff)

lemma startSnake_eq: "startSnake = [(10, 12), (11, 12), (12, 12), (13, 12)]"
  by (simp add: startSnake_def GRID_CELLS_def START_LENGTH_def upt_rec)

lemma placeFood_fields:
  "snake (placeFood s) = snake s" "direction (placeFood s) = direction s"
  "inputQueue (placeFood s) = inputQueue s" "isPaused (placeFood s) = isPaused s"
  "isGameOver (placeFood s) = isGameOver s" "score (placeFood s) = score s"
  "highScore (placeFood s) = highScore s" "movesPerSecond (placeFood s) = movesPerSecond s"
  "lastTime (placeFood s) = lastTime s" "accumulator (placeFood s) = accumulator s"
  "centerMessage (placeFood s) = centerMessage s" "rand (placeFood s) = rand s"
  "food (placeFood s) = Some (fst (placeFood_loop (rand s) (snake s) (randPos s) 0))"
  by (simp_all add: placeFood_def split: prod.splits)

lemma winCheck_fields:
  "snake (winCheck s) = snake s" "direction (winCheck s) = direction s"
  "inputQueue (winCheck s) = inputQueue s" "score (winCheck s) = score s"
  "highScore (winCheck s) = highScore s" "movesPerSecond (winCheck s) = movesPerSecond s"
  "food (winCheck s) = food s" "accumulator (winCheck s) = accumulator s"
  "isPaused (winCheck s) = isPaused s"
  by (simp_all add: winCheck_def showCenterMessage_def)

lemma gameOver_fields:
  "snake (gameOver s) = snake s" "isGameOver (gameOver s)"
  "centerMessage (gameOver s) = Some ''Spillet er over''"
  "direction (gameOver s) = direction s" "inputQueue (gameOver s) = inputQueue s"
  "food (gameOver s) = food s" "accumulator (gameOver s) = accumulator s"
  "isPaused (gameOver s) = isPaused s"
  by (simp_all add: gameOver_def showCenterMessage_def)

lemma consume_fields:
  "snake (consume s) = snake s" "food (consume s) = food s" "score (consume s) = score s"
  "highScore (consume s) = highScore s" "movesPerSecond (consume s) = movesPerSecond s"
  "rand (consume s) = rand s" "randPos (consume s) = randPos s"
  "isPaused (consume s) = isPaused s" "isGameOver (consume s) = isGameOver s"
  "accumulator (consume s) = accumulator s"
  by (simp_all add: consume_def)

lemma eat_fields:
  "snake (eat s) = snake s" "score (eat s) = score s + 1"
  "highScore (eat s) = max (highScore s) (score s + 1)"
  "movesPerSecond (eat s) = min 14 (6 + (score s + 1) div 4)"
  "food (eat s) = Some (fst (placeFood_loop (rand s) (snake s) (randPos s) 0))"
  "direction (eat s) = direction s" "inputQueue (eat s) = inputQueue s"
  "isPaused (eat s) = isPaused s" "isGameOver (eat s) = isGameOver s"
  "accumulator (eat s) = accumulator s"
  by (simp_all add: eat_def placeFood_fields setHighScore_def MAX_SPEED_def BASE_SPEED_def)

text \<open>The four outcomes of a step that is not swallowed.\<close>

lemma tick_wall:
  assumes "\<not> isPaused s" "\<not> isGameOver s" "snake s \<noteq> []" "outOfGrid (newHeadOf (consume s))"
  shows "tick s = Inr (gameOver (consume s))"
  using assms by (simp add: tick_def Let_def consume_fields)

lemma tick_self:
  assumes "\<not> isPaused s" "\<not> isGameOver s" "newHeadOf (consume s) \<in> set (snake s)"
  shows "tick s = Inr (gameOver (consume s))"
proof -
  from assms(3) have "snake (consume s) \<noteq> []" by (auto simp: consume_fields)
  moreover have "occupied (snake (consume s)) (fst (newHeadOf (consume s))) (snd (newHeadOf (consume s)))"
    using assms(3) by (simp add: occupied_iff consume_fields)
  ultimately show ?thesis using assms(1,2) by (simp add: tick_def Let_def)
qed

lemma tick_eat:
  assumes "\<not> isPaused s" "\<not> isGameOver s" "snake s \<noteq> []"
    "\<not> outOfGrid (newHeadOf (consume s))" "newHeadOf (consume s) \<notin> set (snake s)"
    "food s = Some (newHeadOf (consume s))"
  shows "tick s = Inr (winCheck (eat ((consume s)\<lparr>snake := snake s @ [newHeadOf (consume s)]\<rparr>)))"
  using assms by (simp add: tick_def Let_def consume_fields occupied_iff)

lemma tick_move:
  assumes "\<not> isPaused s" "\<not> isGameOver s" "snake s \<noteq> []"
    "\<not> outOfGrid (newHeadOf (consume s))" "newHeadOf (consume s) \<notin> set (snake s)"
    "food s = Some f" "f \<noteq> newHeadOf (consume s)"
  shows "tick s = Inr (winCheck ((consume s)\<lparr>snake := tl (snake s) @ [newHeadOf (consume s)]\<rparr>))"
  using assms by (auto simp add: tick_def Let_def consume_fields occupied_iff prod_eq_iff)

lemma position_fields:
  "snake (position sn d f) = sn" "direction (position sn d f) = d"
  "food (position sn d f) = Some f" "inputQueue (position sn d f) = []"
  "\<not> isPaused (position sn d f)" "\<not> isGameOver (position sn d f)"
  "score (position sn d f) = 0" "highScore (position sn d f) = 0"
  "movesPerSecond (position sn d f) = 6" "accumulator (position sn d f) = 0"
  "lastTime (position sn d f) = 0"
  by (simp_all add: position_def boot_def BASE_SPEED_def)

lemma consume_empty: "inputQueue s = [] \<Longrightarrow> consume s = s"
  by (simp add: consume_def)

lemma accumulator_upd_commute:
  "consume (s\<lparr>accumulator := a\<rparr>) = (consume s)\<lparr>accumulator := a\<rparr>"
  "gameOver (s\<lparr>accumulator := a\<rparr>) = (gameOver s)\<lparr>accumulator := a\<rparr>"
  "winCheck (s\<lparr>accumulator := a\<rparr>) = (winCheck s)\<lparr>accumulator := a\<rparr>"
  "eat (s\<lparr>accumulator := a\<rparr>) = (eat s)\<lparr>accumulator := a\<rparr>"
  "newHeadOf (s\<lparr>accumulator := a\<rparr>) = newHeadOf s"
  "winCheck (s\<lparr>accumulator := a, snake := sn\<rparr>) = (winCheck (s\<lparr>snake := sn\<rparr>))\<lparr>accumulator := a\<rparr>"
  "eat (s\<lparr>accumulator := a, snake := sn\<rparr>) = (eat (s\<lparr>snake := sn\<rparr>))\<lparr>accumulator := a\<rparr>"
  by (simp_all add: consume_def gameOver_def showCenterMessage_def winCheck_def eat_def
      placeFood_def setHighScore_def newHeadOf_def split: prod.splits)

lemma tick_accumulator_upd:
  "tick (s\<lparr>accumulator := a\<rparr>) = map_sum id (\<lambda>s'. s'\<lparr>accumulator := a\<rparr>) (tick s)"
proof -
  have c: "consume (s\<lparr>accumulator := a\<rparr>) = (consume s)\<lparr>accumulator := a\<rparr>"
    by (rule accumulator_upd_commute)
  show ?thesis
    unfolding tick_def Let_def c
    by (simp add: accumulator_upd_commute split: option.splits)
qed

lemma tick_cases [consumes 1, case_names idle crash eat move]:
  assumes "tick s = Inr s'"
  obtains "isPaused s \<or> isGameOver s" and "s' = s"
  | "s' = gameOver (consume s)"
  | "snake s \<noteq> []" and "\<not> outOfGrid (newHeadOf (consume s))"
      and "newHeadOf (consume s) \<notin> set (snake s)"
      and "s' = winCheck (eat ((consume s)\<lparr>snake := snake s @ [newHeadOf (consume s)]\<rparr>))"
  | "snake s \<noteq> []" and "\<not> outOfGrid (newHeadOf (consume s))"
      and "newHeadOf (consume s) \<notin> set (snake s)"
      and "s' = winCheck ((consume s)\<lparr>snake := tl (snake s) @ [newHeadOf (consume s)]\<rparr>)"
proof (cases "isPaused s \<or> isGameOver s")
  case True
  with assms have "s' = s"
    by (simp add: tick_def)
  with True that(1) show ?thesis
    by blast
next
  case False
  then have run: "\<not> isPaused s" "\<not> isGameOver s"
    by simp_all
  have ne: "snake s \<noteq> []"
  proof
    assume "snake s = []"
    with run have "tick s = Inl TypeError"
      by (simp add: tick_def Let_def consume_fields)
    with assms show False
      by simp
  qed
  let ?nh = "newHeadOf (consume s)"
  show ?thesis
  proof (cases "outOfGrid ?nh \<or> ?nh \<in> set (snake s)")
    case True
    with run ne have "tick s = Inr (gameOver (consume s))"
      using tick_wall [of s] tick_self [of s] by blast
    with assms that(2) show ?thesis
      by simp
  next
    case free: False
    show ?thesis
    proof (cases "food s")
      case None
      with run ne free have "tick s = Inl TypeError"
        by (simp add: tick_def Let_def consume_fields occupied_iff)
      with assms show ?thesis
        by simp
    next
      case (Some f)
      show ?thesis
      proof (cases "f = ?nh")
        case True
        with run ne free Some have "tick s = Inr (winCheck (eat ((consume s)\<lparr>snake := snake s @ [?nh]\<rparr>)))"
          using tick_eat [of s] by simp
        with assms ne free that(3) show ?thesis
          by simp
      next
        case False
        with run ne free Some have "tick s = Inr (winCheck ((consume s)\<lparr>snake := tl (snake s) @ [?nh]\<rparr>))"
          using tick_move [of s f] by simp
        with assms ne free that(4) show ?thesis
          by simp
      qed
    qed
  qed
qed

lemma tick_accumulator: "tick s = Inr s' \<Longrightarrow> accumulator s' = accumulator s"
  by (erule tick_cases) (simp_all add: consume_fields gameOver_fields winCheck_fields eat_fields)

lemma tick_direction:
  "tick s = Inr s' \<Longrightarrow> inputQueue s = [] \<Longrightarrow> direction s' = direction s \<and> inputQueue s' = []"
  by (erule tick_cases) (simp_all add: consume_empty gameOver_fields winCheck_fields eat_fields)

lemma wellFormed_flags:
  "wellFormed (s\<lparr>accumulator := a\<rparr>) = wellFormed s"
  "wellFormed (s\<lparr>lastTime := t\<rparr>) = wellFormed s"
  "wellFormed (gameOver s) = wellFormed s"
  "wellFormed (winCheck s) = wellFormed s"
  "wellFormed (togglePause s) = wellFormed s"
  by (simp_all add: wellFormed_def gameOver_def winCheck_def togglePause_def
      showCenterMessage_def hideCenterMessage_def)

lemma wellFormed_consume: "wellFormed s \<Longrightarrow> wellFormed (consume s)"
  by (simp add: wellFormed_def consume_def)

lemma startSnake_ok: "list_all (\<lambda>c. \<not> outOfGrid c) startSnake \<and> distinct startSnake"
  by (simp add: startSnake_eq outOfGrid_def GRID_CELLS_def)

lemma wellFormed_resetGame: "wellFormed (resetGame s)"
  using startSnake_ok
  by (simp add: wellFormed_def resetGame_def hideCenterMessage_def placeFood_fields startSnake_eq
      BASE_SPEED_def)

lemma wellFormed_enqueue: "wellFormed s \<Longrightarrow> wellFormed (enqueueDirectionFromKey code s)"
  by (simp add: wellFormed_def enqueueDirectionFromKey_def split: option.splits)

lemma wellFormed_keydown: "wellFormed s \<Longrightarrow> wellFormed (keydown code s)"
  by (simp add: keydown_def wellFormed_flags wellFormed_resetGame wellFormed_enqueue)

lemma wellFormed_grow:
  assumes "wellFormed s" and "\<not> outOfGrid c" and "c \<notin> set (snake s)"
  shows "wellFormed (eat (s\<lparr>snake := snake s @ [c]\<rparr>))"
proof -
  from assms(1) have "0 \<le> score s"
    by (simp add: wellFormed_def)
  then have "0 \<le> (score s + 1) div 4"
    by (simp add: pos_imp_zdiv_nonneg_iff)
  then have "0 < min 14 (6 + (score s + 1) div 4)"
    by simp
  with assms show ?thesis
    by (simp add: wellFormed_def eat_fields)
qed

lemma wellFormed_shift:
  assumes "wellFormed s" and "\<not> outOfGrid c" and "c \<notin> set (snake s)"
  shows "wellFormed (s\<lparr>snake := tl (snake s) @ [c]\<rparr>)"
proof -
  from assms(1) have "snake s \<noteq> []" and "distinct (snake s)"
    and g: "list_all (\<lambda>c. \<not> outOfGrid c) (snake s)"
    by (simp_all add: wellFormed_def)
  then have "distinct (tl (snake s))" and "list_all (\<lambda>c. \<not> outOfGrid c) (tl (snake s))"
    and "c \<notin> set (tl (snake s))"
    using assms(3) by (auto simp add: distinct_tl list_all_iff dest: list.set_sel(2))
  with assms(1,2) show ?thesis
    by (simp add: wellFormed_def)
qed

lemma wellFormed_tick:
  assumes "wellFormed s" and "tick s = Inr s'"
  shows "wellFormed s'"
  using assms(2)
proof (cases rule: tick_cases)
  case idle
  with assms(1) show ?thesis by simp
next
  case crash
  with assms(1) show ?thesis by (simp add: wellFormed_flags wellFormed_consume)
next
  case eat
  then show ?thesis
    using wellFormed_grow [OF wellFormed_consume [OF assms(1)], of "newHeadOf (consume s)"]
    by (simp add: wellFormed_flags consume_fields)
next
  case move
  then show ?thesis
    using wellFormed_shift [OF wellFormed_consume [OF assms(1)], of "newHeadOf (consume s)"]
    by (simp add: wellFormed_flags consume_fields)
qed

lemma tick_no_error:
  assumes "wellFormed s"
  shows "\<exists>s'. tick s = Inr s'"
proof -
  from assms have "snake (consume s) \<noteq> []" and "food (consume s) \<noteq> None"
    by (simp_all add: wellFormed_def consume_fields)
  then obtain f where "food (consume s) = Some f"
    by auto
  with \<open>snake (consume s) \<noteq> []\<close> show ?thesis
    unfolding tick_def Let_def by simp
qed

lemma wellFormed_animate_loop:
  assumes "animate_loop iv s = Some r"
  shows "wellFormed s \<longrightarrow> (\<forall>s'. r = Inr s' \<longrightarrow> wellFormed s')"
proof (rule animate_loop.raw_induct [OF _ assms])
  fix loop iv s r
  assume 1: "\<And>iv s r. loop iv s = Some r \<Longrightarrow>
      wellFormed s \<longrightarrow> (\<forall>s'. r = Inr s' \<longrightarrow> wellFormed s')"
    "(case iv of
        None \<Rightarrow> Some (Inr s)
      | Some v \<Rightarrow>
          if v \<le> accumulator s
          then (case tick (s\<lparr>accumulator := dbl (accumulator s - v)\<rparr>) of
                  Inl e \<Rightarrow> Some (Inl e)
                | Inr s' \<Rightarrow> loop iv s')
          else Some (Inr s)) = Some r"
  show "wellFormed s \<longrightarrow> (\<forall>s'. r = Inr s' \<longrightarrow> wellFormed s')"
  proof (cases iv)
    case None
    with 1(2) show ?thesis by auto
  next
    case (Some v)
    show ?thesis
    proof (cases "v \<le> accumulator s")
      case False
      with 1(2) Some show ?thesis by auto
    next
      case True
      show ?thesis
      proof
        assume "wellFormed s"
        then have "wellFormed (s\<lparr>accumulator := dbl (accumulator s - v)\<rparr>)"
          by (simp add: wellFormed_flags)
        then obtain s1 where t: "tick (s\<lparr>accumulator := dbl (accumulator s - v)\<rparr>) = Inr s1"
          and w: "wellFormed s1"
          using tick_no_error wellFormed_tick by blast
        from 1(2) Some True t have "loop iv s1 = Some r"
          by simp
        then show "\<forall>s'. r = Inr s' \<longrightarrow> wellFormed s'"
          using 1(1) w by blast
      qed
    qed
  qed
qed

lemma wellFormed_animate:
  assumes "wellFormed s" and "animate ts s = Some (Inr s')"
  shows "wellFormed s'"
  using wellFormed_animate_loop [OF assms(2) [unfolded animate_def]] assms(1)
  by (simp add: wellFormed_def)

lemma reachable_wellFormed: "reachable s \<Longrightarrow> wellFormed s"
  by (induction rule: reachable.induct)
    (auto intro: wellFormed_resetGame wellFormed_keydown wellFormed_tick wellFormed_animate)

lemma resetGame_fields:
  "snake (resetGame s) = [(10, 12), (11, 12), (12, 12), (13, 12)]"
  "direction (resetGame s) = (1, 0)" "score (resetGame s) = 0"
  "movesPerSecond (resetGame s) = 6" "inputQueue (resetGame s) = []"
  "\<not> isPaused (resetGame s)" "\<not> isGameOver (resetGame s)"
  "centerMessage (resetGame s) = None"
  "food (resetGame s) =
     Some (fst (placeFood_loop (rand s) [(10, 12), (11, 12), (12, 12), (13, 12)] (randPos s) 0))"
  "highScore (resetGame s) = highScore s" "accumulator (resetGame s) = accumulator s"
  "rand (resetGame s) = rand s"
  by (simp_all add: resetGame_def hideCenterMessage_def placeFood_fields startSnake_eq BASE_SPEED_def)

lemma willReverse_iff: "willReverse cur nxt \<longleftrightarrow> nxt = (- fst cur, - snd cur)"
  by (auto simp add: willReverse_def prod_eq_iff)

text \<open>The loop passes over occupied cells and stops at a free cell or at the cap.\<close>

lemma placeFood_loop_stop:
  assumes "drawCell rnd p \<notin> set sn \<or> MAX_TRIES \<le> t + 1"
  shows "placeFood_loop rnd sn p t = (drawCell rnd p, p + 2)"
  using assms by (subst placeFood_loop.simps) (auto simp add: occupied_iff)

lemma placeFood_loop_skip:
  assumes "\<forall>j<k. drawCell rnd (p + 2 * j) \<in> set sn" and "t + k < MAX_TRIES"
  shows "placeFood_loop rnd sn p t = placeFood_loop rnd sn (p + 2 * k) (t + k)"
  using assms
proof (induction k arbitrary: p t)
  case 0
  then show ?case by simp
next
  case (Suc k)
  from Suc.prems(1) have here: "drawCell rnd p \<in> set sn"
    by force
  have rest: "\<forall>j<k. drawCell rnd (p + 2 + 2 * j) \<in> set sn"
  proof (intro allI impI)
    fix j assume "j < k"
    then have "drawCell rnd (p + 2 * Suc j) \<in> set sn"
      using Suc.prems(1) by blast
    then show "drawCell rnd (p + 2 + 2 * j) \<in> set sn"
      by (simp add: add.assoc)
  qed
  from here Suc.prems(2) have "placeFood_loop rnd sn p t = placeFood_loop rnd sn (p + 2) (t + 1)"
    by (subst placeFood_loop.simps) (simp add: occupied_iff)
  also have "\<dots> = placeFood_loop rnd sn (p + 2 + 2 * k) (t + 1 + k)"
    using rest Suc.prems(2) by (intro Suc.IH) simp_all
  finally show ?case
    by (simp add: add.assoc)
qed

lemma placeFood_loop_found:
  assumes "k < MAX_TRIES" and "\<forall>j<k. drawCell rnd (p + 2 * j) \<in> set sn"
    and "drawCell rnd (p + 2 * k) \<notin> set sn"
  shows "placeFood_loop rnd sn p 0 = (drawCell rnd (p + 2 * k), p + 2 * k + 2)"
  using placeFood_loop_skip [OF assms(2), of 0] assms(1,3)
  by (simp add: placeFood_loop_stop)

lemma placeFood_loop_exhausted:
  assumes "\<forall>j<MAX_TRIES. drawCell rnd (p + 2 * j) \<in> set sn"
  shows "placeFood_loop rnd sn p 0 =
    (drawCell rnd (p + 2 * (MAX_TRIES - 1)), p + 2 * (MAX_TRIES - 1) + 2)"
proof -
  have "\<forall>j<MAX_TRIES - 1. drawCell rnd (p + 2 * j) \<in> set sn"
    using assms by simp
  moreover have "0 + (MAX_TRIES - 1) < MAX_TRIES"
    by (simp add: MAX_TRIES_def)
  ultimately have "placeFood_loop rnd sn p 0 = placeFood_loop rnd sn (p + 2 * (MAX_TRIES - 1)) (0 + (MAX_TRIES - 1))"
    by (rule placeFood_loop_skip)
  also have "\<dots> = (drawCell rnd (p + 2 * (MAX_TRIES - 1)), p + 2 * (MAX_TRIES - 1) + 2)"
    by (rule placeFood_loop_stop) (simp add: MAX_TRIES_def)
  finally show ?thesis .
qed

lemma drawCell_stuckRand_first: "drawCell stuckRand 0 = (0, 0)"
  by (simp add: drawCell_def stuckRand_def randomInt_def dbl_zero)

lemma drawCell_stuckRand_later:
  "drawCell stuckRand (2 + 2 * j) = (10, 12)" "drawCell stuckRand (Suc (Suc (2 * j))) = (10, 12)"
  by (simp_all add: drawCell_def stuckRand_def randomInt_def GRID_CELLS_def dbl_21_2 dbl_25_2)

lemma stuckStart_fields:
  "snake stuckStart = [(10, 12), (11, 12), (12, 12), (13, 12)]"
  "food stuckStart = Some (0, 0)" "rand stuckStart = stuckRand" "randPos stuckStart = 2"
proof -
  have "placeFood_loop stuckRand [(10, 12), (11, 12), (12, 12), (13, 12)] 0 0 = ((0, 0), 2)"
    by (simp add: placeFood_loop_stop drawCell_stuckRand_first)
  then show "snake stuckStart = [(10, 12), (11, 12), (12, 12), (13, 12)]"
    "food stuckStart = Some (0, 0)" "rand stuckStart = stuckRand" "randPos stuckStart = 2"
    by (simp_all add: stuckStart_def resetGame_def hideCenterMessage_def placeFood_def
        startSnake_eq boot_def)
qed


lemma position_rand:
  "rand (position sn d f) = (randOf [])" "randPos (position sn d f) = 0"
  by (simp_all add: position_def boot_def)

lemma drawCell_zero: "drawCell (randOf []) p = (0, 0)"
  by (simp add: drawCell_def randomInt_def randOf_def dbl_zero)

text \<open>
  What a call of \<^verbatim>\<open>placeFood\<close> leaves: the first free cell among the first 10000 cells
  drawn, or the last of them when none is free.
\<close>

lemma placeFood_loop_result:
  "\<exists>k<MAX_TRIES. placeFood_loop rs sn p 0 = (drawCell rs (p + 2 * k), p + 2 * k + 2) \<and>
     (\<forall>j<k. drawCell rs (p + 2 * j) \<in> set sn) \<and>
     (drawCell rs (p + 2 * k) \<notin> set sn \<or> k = MAX_TRIES - 1)"
proof (cases "\<forall>j<MAX_TRIES. drawCell rs (p + 2 * j) \<in> set sn")
  case True
  then have "placeFood_loop rs sn p 0 =
      (drawCell rs (p + 2 * (MAX_TRIES - 1)), p + 2 * (MAX_TRIES - 1) + 2)"
    by (rule placeFood_loop_exhausted)
  moreover have "MAX_TRIES - 1 < MAX_TRIES"
    by (simp add: MAX_TRIES_def)
  moreover from True have "\<forall>j<MAX_TRIES - 1. drawCell rs (p + 2 * j) \<in> set sn"
    by simp
  ultimately show ?thesis
    by blast
next
  case False
  then obtain j where j: "j < MAX_TRIES" "drawCell rs (p + 2 * j) \<notin> set sn"
    by blast
  define k where "k = (LEAST i. drawCell rs (p + 2 * i) \<notin> set sn)"
  from j(2) have free: "drawCell rs (p + 2 * k) \<notin> set sn"
    unfolding k_def by (rule LeastI)
  from j(2) have "k \<le> j"
    unfolding k_def by (rule Least_le)
  with j(1) have small: "k < MAX_TRIES"
    by simp
  have before: "\<forall>i<k. drawCell rs (p + 2 * i) \<in> set sn"
    using not_less_Least [of _ "\<lambda>i. drawCell rs (p + 2 * i) \<notin> set sn"]
    unfolding k_def by blast
  from small before free have "placeFood_loop rs sn p 0 =
      (drawCell rs (p + 2 * k), p + 2 * k + 2)"
    by (rule placeFood_loop_found)
  with small before free show ?thesis
    by blast
qed

lemma placeFood_food:
  "\<exists>k<10000. food (placeFood s) = Some (drawCell (rand s) (randPos s + 2 * k)) \<and>
     (\<forall>j<k. drawCell (rand s) (randPos s + 2 * j) \<in> set (snake s)) \<and>
     (drawCell (rand s) (randPos s + 2 * k) \<notin> set (snake s) \<or> k = 9999)"
proof -
  from placeFood_loop_result [of "rand s" "snake s" "randPos s"]
  obtain k where "k < MAX_TRIES"
    and "placeFood_loop (rand s) (snake s) (randPos s) 0 =
      (drawCell (rand s) (randPos s + 2 * k), randPos s + 2 * k + 2)"
    and "\<forall>j<k. drawCell (rand s) (randPos s + 2 * j) \<in> set (snake s)"
    and "drawCell (rand s) (randPos s + 2 * k) \<notin> set (snake s) \<or> k = MAX_TRIES - 1"
    by blast
  then show ?thesis
    by (intro exI [of _ k]) (simp add: placeFood_fields MAX_TRIES_def)
qed

lemma eat_food:
  "\<exists>k<10000. food (eat s) = Some (drawCell (rand s) (randPos s + 2 * k)) \<and>
     (\<forall>j<k. drawCell (rand s) (randPos s + 2 * j) \<in> set (snake s)) \<and>
     (drawCell (rand s) (randPos s + 2 * k) \<notin> set (snake s) \<or> k = 9999)"
  using placeFood_food
    [of "(setHighScore (score s + 1) (s\<lparr>score := score s + 1\<rparr>))
          \<lparr>movesPerSecond := min MAX_SPEED (BASE_SPEED + (score s + 1) div 4)\<rparr>"]
  by (simp add: eat_def setHighScore_def)

lemma resetGame_food:
  "\<exists>k<10000. food (resetGame s) = Some (drawCell (rand s) (randPos s + 2 * k)) \<and>
     (\<forall>j<k. drawCell (rand s) (randPos s + 2 * j) \<in> set (snake (resetGame s))) \<and>
     (drawCell (rand s) (randPos s + 2 * k) \<notin> set (snake (resetGame s)) \<or> k = 9999)"
  using placeFood_food
    [of "s\<lparr>snake := startSnake, direction := (1, 0), inputQueue := [], isPaused := False,
          isGameOver := False, score := 0, movesPerSecond := BASE_SPEED\<rparr>"]
  by (simp add: resetGame_def hideCenterMessage_def placeFood_fields)

section \<open>Claims about the simulation step\<close>

text \<open>
  C1. In a running state (neither paused nor over) whose new head, the head moved by the
  direction in effect after the queued input is taken, is inside the 24 by 24 grid, on
  no snake cell and on the food cell, \<^verbatim>\<open>tick\<close> adds one to the score, raises the high
  score to at least the new score, sets the speed to \<open>min 14 (6 + score div 4)\<close> for the
  new score, and keeps the tail: the snake is the old one with the new head appended,
  one cell longer. Food is placed again for the grown snake: it becomes the first of
  the cells drawn from \<^verbatim>\<open>Math.random()\<close> that lies on no cell of the new snake, or the
  10000th drawn cell when the first 10000 all lie on it.
\<close>

theorem tick_eats_food:
  assumes "\<not> isPaused s" and "\<not> isGameOver s" and "snake s \<noteq> []"
    and "nh = newHeadOf (consume s)"
    and "0 \<le> fst nh \<and> fst nh < 24 \<and> 0 \<le> snd nh \<and> snd nh < 24"
    and "nh \<notin> set (snake s)"
    and "food s = Some nh"
  shows "\<exists>s'. tick s = Inr s' \<and>
           score s' = score s + 1 \<and>
           highScore s' = max (highScore s) (score s') \<and>
           movesPerSecond s' = min 14 (6 + score s' div 4) \<and>
           snake s' = snake s @ [nh] \<and>
           length (snake s') = length (snake s) + 1 \<and>
           (\<exists>k<10000. food s' = Some (drawCell (rand s) (randPos s + 2 * k)) \<and>
              (\<forall>j<k. drawCell (rand s) (randPos s + 2 * j) \<in> set (snake s')) \<and>
              (drawCell (rand s) (randPos s + 2 * k) \<notin> set (snake s') \<or> k = 9999))"
proof -
  from assms(4,5) have g: "\<not> outOfGrid (newHeadOf (consume s))"
    by (simp add: outOfGrid_def GRID_CELLS_def)
  define s' where "s' = winCheck (eat ((consume s)\<lparr>snake := snake s @ [nh]\<rparr>))"
  with assms g have t: "tick s = Inr s'"
    by (simp add: tick_eat)
  have sc: "score s' = score s + 1"
    and hs: "highScore s' = max (highScore s) (score s')"
    and sp: "movesPerSecond s' = min 14 (6 + score s' div 4)"
    and sn: "snake s' = snake s @ [nh]"
    and ln: "length (snake s') = length (snake s) + 1"
    and fo: "food s' = food (eat ((consume s)\<lparr>snake := snake s @ [nh]\<rparr>))"
    by (simp_all add: s'_def winCheck_fields eat_fields consume_fields)
  have "\<exists>k<10000.
      food (eat ((consume s)\<lparr>snake := snake s @ [nh]\<rparr>)) =
        Some (drawCell (rand s) (randPos s + 2 * k)) \<and>
      (\<forall>j<k. drawCell (rand s) (randPos s + 2 * j) \<in> set (snake s @ [nh])) \<and>
      (drawCell (rand s) (randPos s + 2 * k) \<notin> set (snake s @ [nh]) \<or> k = 9999)"
    using eat_food [of "(consume s)\<lparr>snake := snake s @ [nh]\<rparr>"]
    by (simp add: consume_fields del: set_append)
  then have pl: "\<exists>k<10000. food s' = Some (drawCell (rand s) (randPos s + 2 * k)) \<and>
      (\<forall>j<k. drawCell (rand s) (randPos s + 2 * j) \<in> set (snake s')) \<and>
      (drawCell (rand s) (randPos s + 2 * k) \<notin> set (snake s') \<or> k = 9999)"
    unfolding sn fo by blast
  from t sc hs sp sn ln pl show ?thesis
    by blast
qed

theorem tick_eats_food_witness:
  "\<exists>s'. tick (position [(8, 12), (9, 12), (10, 12), (11, 12)] (1, 0) (12, 12)) = Inr s' \<and>
     score s' = 1 \<and> highScore s' = 1 \<and> movesPerSecond s' = 6 \<and>
     snake s' = [(8, 12), (9, 12), (10, 12), (11, 12), (12, 12)] \<and>
     food s' = Some (0, 0)"
  using tick_eats_food [of "position [(8, 12), (9, 12), (10, 12), (11, 12)] (1, 0) (12, 12)" "(12, 12)"]
  by (auto simp add: position_fields position_rand drawCell_zero consume_empty newHeadOf_def)



text \<open>
  C3. The self-collision test looks at the snake as it is before the move, tail
  included: in a running state whose new head lies on any snake cell the step ends the
  game and leaves the snake as it was; this holds in particular when the new head is
  the tail cell \<open>hd (snake s)\<close>, which a move would have vacated.
\<close>

theorem tick_self_collision:
  assumes "\<not> isPaused s" and "\<not> isGameOver s"
    and "nh = newHeadOf (consume s)"
    and "nh \<in> set (snake s) \<or> (snake s \<noteq> [] \<and> nh = hd (snake s))"
  shows "\<exists>s'. tick s = Inr s' \<and> isGameOver s' \<and>
           centerMessage s' = Some ''Spillet er over'' \<and> snake s' = snake s"
proof -
  from assms(4) have "nh \<in> set (snake s)"
    by auto
  with assms(1,2,3) have "tick s = Inr (gameOver (consume s))"
    by (simp add: tick_self)
  then show ?thesis
    by (simp add: gameOver_fields consume_fields)
qed

theorem tick_self_collision_witness:
  "\<exists>s'. tick (position [(5, 5), (6, 5), (6, 6), (5, 6)] (0, - 1) (0, 0)) = Inr s' \<and>
     isGameOver s' \<and> snake s' = [(5, 5), (6, 5), (6, 6), (5, 6)]"
  using tick_self_collision [of "position [(5, 5), (6, 5), (6, 6), (5, 6)] (0, - 1) (0, 0)" "(5, 5)"]
  by (auto simp add: position_fields consume_empty newHeadOf_def)

text \<open>
  C4. In a running state whose new head lies outside \<open>[0, 24) \<times> [0, 24)\<close> the step ends
  the game and the snake is the one from before the step.
\<close>

theorem tick_wall_collision:
  assumes "\<not> isPaused s" and "\<not> isGameOver s" and "snake s \<noteq> []"
    and "nh = newHeadOf (consume s)"
    and "fst nh < 0 \<or> 24 \<le> fst nh \<or> snd nh < 0 \<or> 24 \<le> snd nh"
  shows "\<exists>s'. tick s = Inr s' \<and> isGameOver s' \<and>
           centerMessage s' = Some ''Spillet er over'' \<and> snake s' = snake s"
proof -
  from assms(4,5) have "outOfGrid (newHeadOf (consume s))"
    by (simp add: outOfGrid_def GRID_CELLS_def)
  with assms(1,2,3) have "tick s = Inr (gameOver (consume s))"
    by (rule tick_wall)
  then show ?thesis
    by (simp add: gameOver_fields consume_fields)
qed

theorem tick_wall_collision_witness:
  "\<exists>s'. tick (position [(20, 12), (21, 12), (22, 12), (23, 12)] (1, 0) (0, 0)) = Inr s' \<and>
     isGameOver s' \<and> snake s' = [(20, 12), (21, 12), (22, 12), (23, 12)]"
  using tick_wall_collision
    [of "position [(20, 12), (21, 12), (22, 12), (23, 12)] (1, 0) (0, 0)" "(24, 12)"]
  by (auto simp add: position_fields consume_empty newHeadOf_def)

text \<open>
  C5. In every state reached from a restart by key presses, simulation steps and frames,
  every snake cell lies in \<open>[0, GRID_CELLS)\<close> on both axes; and while the game is not
  over (the session is running or paused), no cell occurs twice in the snake.
\<close>

theorem reachable_snake_invariant:
  assumes "reachable s"
  shows "(\<forall>c \<in> set (snake s).
            0 \<le> fst c \<and> fst c < GRID_CELLS \<and> 0 \<le> snd c \<and> snd c < GRID_CELLS) \<and>
         (\<not> isGameOver s \<longrightarrow> distinct (snake s))"
proof -
  from assms have "wellFormed s"
    by (rule reachable_wellFormed)
  then show ?thesis
    by (auto simp add: wellFormed_def list_all_iff outOfGrid_def)
qed

theorem reachable_snake_invariant_witness:
  "reachable (keydown ''ArrowUp'' (resetGame (boot 0 (randOf [])))) \<and>
   \<not> isGameOver (keydown ''ArrowUp'' (resetGame (boot 0 (randOf [])))) \<and>
   distinct (snake (keydown ''ArrowUp'' (resetGame (boot 0 (randOf []))))) \<and>
   list_all (\<lambda>c. 0 \<le> fst c \<and> fst c < GRID_CELLS \<and> 0 \<le> snd c \<and> snd c < GRID_CELLS)
     (snake (keydown ''ArrowUp'' (resetGame (boot 0 (randOf [])))))"
proof -
  have r: "reachable (keydown ''ArrowUp'' (resetGame (boot 0 (randOf []))))"
    by (intro reachable.key reachable.restart)
  have "\<not> isGameOver (keydown ''ArrowUp'' (resetGame (boot 0 (randOf []))))"
    by (simp add: keydown_def enqueueDirectionFromKey_def keyDirection_def resetGame_fields)
  with r reachable_snake_invariant [OF r] show ?thesis
    by (simp add: list_all_iff)
qed

section \<open>Claims about input and restart\<close>

text \<open>
  C6. A key that stands for a direction \<open>d\<close> is stored only when the queue is empty and
  \<open>d\<close> is not the exact reverse of the current direction; otherwise the state is left
  as it is. The queue therefore never grows beyond one entry, in one call and in every
  reachable state. When the queue is empty and \<open>d\<close> is the reverse of the direction,
  the queue stays empty, and the direction is the same after the consume step of the
  next \<^verbatim>\<open>tick\<close>.
\<close>

theorem enqueue_single_slot:
  assumes "keyDirection code = Some d"
  shows "enqueueDirectionFromKey code s =
           (if inputQueue s = [] \<and> d \<noteq> (- fst (direction s), - snd (direction s))
            then s\<lparr>inputQueue := [d]\<rparr> else s) \<and>
         (length (inputQueue s) \<le> 1 \<longrightarrow>
            length (inputQueue (enqueueDirectionFromKey code s)) \<le> 1) \<and>
         (reachable s \<longrightarrow> length (inputQueue s) \<le> 1) \<and>
         (inputQueue s = [] \<and> d = (- fst (direction s), - snd (direction s)) \<longrightarrow>
            inputQueue (enqueueDirectionFromKey code s) = [] \<and>
            direction (consume (enqueueDirectionFromKey code s)) = direction s \<and>
            (\<forall>s'. tick (enqueueDirectionFromKey code s) = Inr s' \<longrightarrow>
               direction s' = direction s \<and> inputQueue s' = []))"
proof -
  have e: "enqueueDirectionFromKey code s =
      (if inputQueue s = [] \<and> d \<noteq> (- fst (direction s), - snd (direction s))
       then s\<lparr>inputQueue := [d]\<rparr> else s)"
    using assms by (simp add: enqueueDirectionFromKey_def willReverse_iff)
  have r: "reachable s \<longrightarrow> length (inputQueue s) \<le> 1"
    using reachable_wellFormed [of s] by (simp add: wellFormed_def)
  have l: "length (inputQueue s) \<le> 1 \<longrightarrow>
      length (inputQueue (enqueueDirectionFromKey code s)) \<le> 1"
    by (simp add: e)
  have d: "inputQueue s = [] \<and> d = (- fst (direction s), - snd (direction s)) \<longrightarrow>
      inputQueue (enqueueDirectionFromKey code s) = [] \<and>
      direction (consume (enqueueDirectionFromKey code s)) = direction s \<and>
      (\<forall>s'. tick (enqueueDirectionFromKey code s) = Inr s' \<longrightarrow>
         direction s' = direction s \<and> inputQueue s' = [])"
  proof
    assume a: "inputQueue s = [] \<and> d = (- fst (direction s), - snd (direction s))"
    then have same: "enqueueDirectionFromKey code s = s"
      by (simp add: e)
    from a have "consume s = s"
      by (simp add: consume_empty)
    with a same tick_direction [of s] show "inputQueue (enqueueDirectionFromKey code s) = [] \<and>
      direction (consume (enqueueDirectionFromKey code s)) = direction s \<and>
      (\<forall>s'. tick (enqueueDirectionFromKey code s) = Inr s' \<longrightarrow>
         direction s' = direction s \<and> inputQueue s' = [])"
      by simp
  qed
  from e l r d show ?thesis
    by (intro conjI)
qed

theorem enqueue_single_slot_witness:
  "inputQueue (enqueueDirectionFromKey ''ArrowLeft'' (resetGame (boot 0 (randOf [])))) = [] \<and>
   direction (consume (enqueueDirectionFromKey ''ArrowLeft'' (resetGame (boot 0 (randOf []))))) = (1, 0)"
proof -
  have k: "keyDirection ''ArrowLeft'' = Some (- 1, 0)"
    by (simp add: keyDirection_def)
  have q: "inputQueue (resetGame (boot 0 (randOf []))) = []"
    and d: "direction (resetGame (boot 0 (randOf []))) = (1, 0)"
    by (simp_all add: resetGame_fields)
  from d have "(- 1, 0) = (- fst (direction (resetGame (boot 0 (randOf [])))),
      - snd (direction (resetGame (boot 0 (randOf [])))))"
    by simp
  with q d enqueue_single_slot [OF k, of "resetGame (boot 0 (randOf []))"] show ?thesis
    by metis
qed

text \<open>
  C8, as the code has it. From any state, whatever its flags, \<^verbatim>\<open>resetGame\<close> gives the
  four-cell horizontal snake centred on the grid, which is \<open>[(10,12), (11,12), (12,12),
  (13,12)]\<close>, direction \<open>(1,0)\<close>, score 0, speed 6, an empty input queue, neither
  paused nor over, no overlay message, and food placed afresh: the first of the cells
  drawn from \<^verbatim>\<open>Math.random()\<close> that lies on no cell of that snake, or the 10000th drawn
  cell when the first 10000 all lie on it.
\<close>

theorem resetGame_restart:
  "snake (resetGame s) = [(10, 12), (11, 12), (12, 12), (13, 12)] \<and>
   direction (resetGame s) = (1, 0) \<and>
   score (resetGame s) = 0 \<and>
   movesPerSecond (resetGame s) = 6 \<and>
   inputQueue (resetGame s) = [] \<and>
   \<not> isPaused (resetGame s) \<and> \<not> isGameOver (resetGame s) \<and>
   centerMessage (resetGame s) = None \<and>
   (\<exists>k<10000. food (resetGame s) = Some (drawCell (rand s) (randPos s + 2 * k)) \<and>
      (\<forall>j<k. drawCell (rand s) (randPos s + 2 * j) \<in> set (snake (resetGame s))) \<and>
      (drawCell (rand s) (randPos s + 2 * k) \<notin> set (snake (resetGame s)) \<or> k = 9999))"
  using resetGame_food [of s] by (simp add: resetGame_fields)

theorem resetGame_restart_witness:
  "isGameOver (gameOver (position [(20, 12), (21, 12), (22, 12), (23, 12)] (1, 0) (0, 0))) \<and>
   snake (resetGame (gameOver (position [(20, 12), (21, 12), (22, 12), (23, 12)] (1, 0) (0, 0))))
     = [(10, 12), (11, 12), (12, 12), (13, 12)] \<and>
   \<not> isGameOver (resetGame (gameOver (position [(20, 12), (21, 12), (22, 12), (23, 12)] (1, 0) (0, 0)))) \<and>
   food (resetGame (gameOver (position [(20, 12), (21, 12), (22, 12), (23, 12)] (1, 0) (0, 0))))
     = Some (0, 0)"
  using resetGame_restart [of "gameOver (position [(20, 12), (21, 12), (22, 12), (23, 12)] (1, 0) (0, 0))"]
  by (auto simp add: gameOver_fields gameOver_def showCenterMessage_def position_rand drawCell_zero)

text \<open>
  The snake after a restart is not \<open>[(8,12), (9,12), (10,12), (11,12)]\<close>, the start state
  that the first scenario of the specification names.
\<close>

theorem resetGame_not_spec_start:
  "snake (resetGame (boot 0 (randOf []))) \<noteq> [(8, 12), (9, 12), (10, 12), (11, 12)]"
  by (simp add: resetGame_fields)

section \<open>Claims about food placement\<close>

text \<open>
  C9, as the code has it. The cells drawn by a call are \<open>drawCell (rand s) (randPos s + 2 * j)\<close>
  for \<open>j = 0, 1, ...\<close>. When the first free cell among the first 10000 draws is the
  \<open>k\<close>-th, food is that cell and lies on no snake cell. When all 10000 draws hit the
  snake, the loop gives up and food becomes the last cell drawn, which is a snake cell.
\<close>

theorem placeFood_result:
  "(k < 10000 \<and> (\<forall>j<k. drawCell (rand s) (randPos s + 2 * j) \<in> set (snake s)) \<and>
      drawCell (rand s) (randPos s + 2 * k) \<notin> set (snake s) \<longrightarrow>
    food (placeFood s) = Some (drawCell (rand s) (randPos s + 2 * k)) \<and>
    drawCell (rand s) (randPos s + 2 * k) \<notin> set (snake (placeFood s))) \<and>
   ((\<forall>j<10000. drawCell (rand s) (randPos s + 2 * j) \<in> set (snake s)) \<longrightarrow>
    food (placeFood s) = Some (drawCell (rand s) (randPos s + 2 * 9999)) \<and>
    drawCell (rand s) (randPos s + 2 * 9999) \<in> set (snake (placeFood s)))"
proof (intro conjI impI)
  assume a: "k < 10000 \<and> (\<forall>j<k. drawCell (rand s) (randPos s + 2 * j) \<in> set (snake s)) \<and>
      drawCell (rand s) (randPos s + 2 * k) \<notin> set (snake s)"
  then have "placeFood_loop (rand s) (snake s) (randPos s) 0 =
      (drawCell (rand s) (randPos s + 2 * k), randPos s + 2 * k + 2)"
    by (intro placeFood_loop_found) (simp_all add: MAX_TRIES_def)
  then show "food (placeFood s) = Some (drawCell (rand s) (randPos s + 2 * k))"
    by (simp add: placeFood_fields)
  from a show "drawCell (rand s) (randPos s + 2 * k) \<notin> set (snake (placeFood s))"
    by (simp add: placeFood_fields)
next
  assume a: "\<forall>j<10000. drawCell (rand s) (randPos s + 2 * j) \<in> set (snake s)"
  then have "placeFood_loop (rand s) (snake s) (randPos s) 0 =
      (drawCell (rand s) (randPos s + 2 * (MAX_TRIES - 1)), randPos s + 2 * (MAX_TRIES - 1) + 2)"
    by (intro placeFood_loop_exhausted) (simp add: MAX_TRIES_def)
  then show "food (placeFood s) = Some (drawCell (rand s) (randPos s + 2 * 9999))"
    by (simp add: placeFood_fields MAX_TRIES_def)
  from a [rule_format, of 9999]
  show "drawCell (rand s) (randPos s + 2 * 9999) \<in> set (snake (placeFood s))"
    by (simp add: placeFood_fields)
qed

theorem placeFood_result_witness:
  "food (placeFood (position [(10, 12), (11, 12), (12, 12), (13, 12)] (1, 0) (5, 5))) = Some (0, 0) \<and>
   food (placeFood stuckStart) = Some (10, 12)"
proof -
  have "food (placeFood (position [(10, 12), (11, 12), (12, 12), (13, 12)] (1, 0) (5, 5))) = Some (0, 0)"
    using placeFood_result [of 0 "position [(10, 12), (11, 12), (12, 12), (13, 12)] (1, 0) (5, 5)"]
    by (simp add: position_fields position_rand drawCell_zero)
  moreover have "food (placeFood stuckStart) = Some (10, 12)"
    using placeFood_result [of 0 stuckStart] drawCell_stuckRand_later(1) [of 9999]
    by (simp add: stuckStart_fields drawCell_stuckRand_later)
  ultimately show ?thesis
    by simp
qed

text \<open>
  When the cap is reached, food is a snake cell after the call, and it is not the food
  cell from before the call: here \<^verbatim>\<open>placeFood\<close> runs on the freshly started game with
  food at \<open>(0,0)\<close>, as a second restart would do, and all 10000 draws are \<open>(10,12)\<close>.
\<close>

theorem placeFood_on_snake:
  "food (placeFood stuckStart) = Some (10, 12) \<and>
   (10, 12) \<in> set (snake (placeFood stuckStart)) \<and>
   food stuckStart = Some (0, 0)"
proof -
  have "\<forall>j<MAX_TRIES. drawCell stuckRand (2 + 2 * j) \<in> set [(10, 12), (11, 12), (12, 12), (13, 12)]"
    by (simp add: drawCell_stuckRand_later)
  then have "placeFood_loop stuckRand [(10, 12), (11, 12), (12, 12), (13, 12)] 2 0 =
      (drawCell stuckRand (2 + 2 * (MAX_TRIES - 1)), 2 + 2 * (MAX_TRIES - 1) + 2)"
    by (rule placeFood_loop_exhausted)
  then show ?thesis
    by (simp add: placeFood_fields stuckStart_fields drawCell_stuckRand_later)
qed

section \<open>Claims about the frame driver\<close>

text \<open>
  The accumulator belongs to the driver alone: \<^verbatim>\<open>tick\<close> neither reads nor writes it.
  A frame that starts the loop with \<open>a\<close> in the accumulator and the interval \<open>v\<close> makes
  \<open>n\<close> steps exactly when \<open>drain v a\<close> stays at or above \<open>v\<close> before \<open>n\<close> and is below
  \<open>v\<close> at \<open>n\<close>.
\<close>

lemma ticks_accumulator_upd:
  "ticks n (s\<lparr>accumulator := a\<rparr>) = map_sum id (\<lambda>s'. s'\<lparr>accumulator := a\<rparr>) (ticks n s)"
proof (induction n arbitrary: s)
  case 0
  show ?case by simp
next
  case (Suc n)
  show ?case
  proof (cases "tick s")
    case (Inl e)
    then show ?thesis by (simp add: tick_accumulator_upd)
  next
    case (Inr s1)
    then show ?thesis by (simp add: tick_accumulator_upd Suc.IH)
  qed
qed

lemma ticks_accumulator: "ticks n s = Inr s' \<Longrightarrow> accumulator s' = accumulator s"
proof (induction n arbitrary: s)
  case 0
  then show ?case by simp
next
  case (Suc n)
  then show ?case
    by (cases "tick s") (auto dest: tick_accumulator)
qed

lemma ticks_one: "ticks (Suc 0) s = tick s"
  by (cases "tick s") simp_all

lemma animate_loop_drain:
  assumes "\<forall>k<n. v \<le> drain v (accumulator s) k" and "drain v (accumulator s) n < v"
  shows "animate_loop (Some v) s = Some (ticks n (s\<lparr>accumulator := drain v (accumulator s) n\<rparr>))"
  using assms
proof (induction n arbitrary: s)
  case 0
  then show ?case
    by (subst animate_loop.simps) simp
next
  case (Suc n)
  from Suc.prems(1) have ge: "v \<le> accumulator s"
    by force
  show ?case
  proof (cases "tick s")
    case (Inl e)
    with ge show ?thesis
      by (subst animate_loop.simps) (simp add: tick_accumulator_upd)
  next
    case (Inr s0)
    let ?s1 = "s0\<lparr>accumulator := dbl (accumulator s - v)\<rparr>"
    have "\<forall>k<n. v \<le> drain v (accumulator ?s1) k"
    proof (intro allI impI)
      fix k assume "k < n"
      then have "v \<le> drain v (accumulator s) (Suc k)"
        using Suc.prems(1) by blast
      then show "v \<le> drain v (accumulator ?s1) k"
        by simp
    qed
    moreover from Suc.prems(2) have "drain v (accumulator ?s1) n < v"
      by simp
    ultimately have "animate_loop (Some v) ?s1 =
        Some (ticks n (?s1\<lparr>accumulator := drain v (accumulator ?s1) n\<rparr>))"
      by (rule Suc.IH)
    with ge Inr show ?thesis
      by (subst animate_loop.simps) (simp add: tick_accumulator_upd)
  qed
qed

lemma animate_loop_exit:
  assumes "animate_loop iv s = Some r"
  shows "\<forall>v s'. iv = Some v \<longrightarrow> r = Inr s' \<longrightarrow>
    (\<exists>n. (\<forall>k<n. v \<le> drain v (accumulator s) k) \<and> drain v (accumulator s) n < v \<and>
       ticks n (s\<lparr>accumulator := drain v (accumulator s) n\<rparr>) = Inr s')"
proof (rule animate_loop.raw_induct [OF _ assms])
  fix loop iv s r
  assume IH: "\<And>iv s r. loop iv s = Some r \<Longrightarrow>
      \<forall>v s'. iv = Some v \<longrightarrow> r = Inr s' \<longrightarrow>
        (\<exists>n. (\<forall>k<n. v \<le> drain v (accumulator s) k) \<and> drain v (accumulator s) n < v \<and>
           ticks n (s\<lparr>accumulator := drain v (accumulator s) n\<rparr>) = Inr s')"
    and body: "(case iv of
        None \<Rightarrow> Some (Inr s)
      | Some v \<Rightarrow>
          if v \<le> accumulator s
          then (case tick (s\<lparr>accumulator := dbl (accumulator s - v)\<rparr>) of
                  Inl e \<Rightarrow> Some (Inl e)
                | Inr s' \<Rightarrow> loop iv s')
          else Some (Inr s)) = Some r"
  show "\<forall>v s'. iv = Some v \<longrightarrow> r = Inr s' \<longrightarrow>
        (\<exists>n. (\<forall>k<n. v \<le> drain v (accumulator s) k) \<and> drain v (accumulator s) n < v \<and>
           ticks n (s\<lparr>accumulator := drain v (accumulator s) n\<rparr>) = Inr s')"
  proof (intro allI impI)
    fix v s'
    assume iv: "iv = Some v" and r: "r = Inr s'"
    show "\<exists>n. (\<forall>k<n. v \<le> drain v (accumulator s) k) \<and> drain v (accumulator s) n < v \<and>
           ticks n (s\<lparr>accumulator := drain v (accumulator s) n\<rparr>) = Inr s'"
    proof (cases "v \<le> accumulator s")
      case False
      with body iv r have "s' = s"
        by simp
      with False show ?thesis
        by (intro exI [of _ 0]) simp
    next
      case True
      let ?a = "dbl (accumulator s - v)"
      from body iv r True obtain s1 where t: "tick (s\<lparr>accumulator := ?a\<rparr>) = Inr s1"
        and l: "loop iv s1 = Some (Inr s')"
        by (cases "tick (s\<lparr>accumulator := ?a\<rparr>)") simp_all
      from t have a1: "accumulator s1 = ?a"
        using tick_accumulator by fastforce
      from IH [OF l] iv obtain n where n: "\<forall>k<n. v \<le> drain v ?a k" "drain v ?a n < v"
        "ticks n (s1\<lparr>accumulator := drain v ?a n\<rparr>) = Inr s'"
        unfolding a1 by blast
      from t obtain s0 where s0: "tick s = Inr s0" and s1: "s1 = s0\<lparr>accumulator := ?a\<rparr>"
        by (cases "tick s") (simp_all add: tick_accumulator_upd)
      have "\<forall>k<Suc n. v \<le> drain v (accumulator s) k"
      proof (intro allI impI)
        fix k assume "k < Suc n"
        then show "v \<le> drain v (accumulator s) k"
          using True n(1) by (cases k) simp_all
      qed
      moreover from n(2) have "drain v (accumulator s) (Suc n) < v"
        by simp
      moreover from n(3) s0 s1 have
        "ticks (Suc n) (s\<lparr>accumulator := drain v (accumulator s) (Suc n)\<rparr>) = Inr s'"
        by (simp add: tick_accumulator_upd)
      ultimately show ?thesis
        by blast
    qed
  qed
qed


lemma frameDelta_le: "frameDelta ts s \<le> dbl (1 / 10)"
  by (simp add: frameDelta_def)

lemma animate_returns:
  assumes "stepIntervalOf (movesPerSecond s) = Some v"
    and "a = dbl (accumulator s + frameDelta ts s)"
    and "\<forall>k<n. v \<le> drain v a k" and "drain v a n < v"
  shows "animate ts s = Some (ticks n (s\<lparr>lastTime := ts, accumulator := drain v a n\<rparr>))"
proof -
  let ?s = "s\<lparr>lastTime := ts, accumulator := a\<rparr>"
  from assms(3,4) have "animate_loop (Some v) ?s =
      Some (ticks n (?s\<lparr>accumulator := drain v (accumulator ?s) n\<rparr>))"
    by (intro animate_loop_drain) simp_all
  then show ?thesis
    by (simp add: animate_def assms(1,2))
qed

lemma animate_exit:
  assumes "stepIntervalOf (movesPerSecond s) = Some v"
    and "a = dbl (accumulator s + frameDelta ts s)"
    and "animate ts s = Some (Inr s')"
  shows "\<exists>n. (\<forall>k<n. v \<le> drain v a k) \<and> drain v a n < v \<and>
    ticks n (s\<lparr>lastTime := ts, accumulator := drain v a n\<rparr>) = Inr s' \<and>
    accumulator s' = drain v a n"
proof -
  let ?s = "s\<lparr>lastTime := ts, accumulator := a\<rparr>"
  from assms have "animate_loop (Some v) ?s = Some (Inr s')"
    by (simp add: animate_def)
  from animate_loop_exit [OF this]
  obtain n where n: "\<forall>k<n. v \<le> drain v a k" "drain v a n < v"
    "ticks n (s\<lparr>lastTime := ts, accumulator := drain v a n\<rparr>) = Inr s'"
    by auto
  from n(3) have "accumulator s' = drain v a n"
    using ticks_accumulator by fastforce
  with n show ?thesis
    by blast
qed

text \<open>
  Rounding to a double moves a number by at most half the distance between the doubles
  around it. The loop therefore ends whenever the interval is not tiny and the
  accumulator is not astronomically large, as they are in play.
\<close>

lemma expo_bounds:
  assumes "x \<noteq> 0"
  shows "pow2 (expo x) \<le> \<bar>x\<bar> \<and> \<bar>x\<bar> < pow2 (expo x + 1)"
proof (cases "1 \<le> \<bar>x\<bar>")
  case True
  define k where "k = \<lfloor>\<bar>x\<bar>\<rfloor>"
  from True have k: "0 < k"
    by (simp add: k_def)
  then have b: "1 \<le> bitlen k"
    using bitlen_ge_iff_power [of 1 k] by simp
  from bitlen_bounds [OF k] have lo: "2 ^ nat (bitlen k - 1) \<le> k" and hi: "k < 2 ^ nat (bitlen k)"
    by simp_all
  have e: "expo x = bitlen k - 1"
    using True by (simp add: expo_def k_def)
  have "real_of_int (2 ^ nat (bitlen k - 1)) \<le> real_of_int k"
    using lo by (simp only: of_int_le_iff)
  also have "real_of_int k \<le> \<bar>x\<bar>"
    by (simp add: k_def)
  finally have "2 ^ nat (bitlen k - 1) \<le> \<bar>x\<bar>"
    by simp
  with b have 1: "pow2 (expo x) \<le> \<bar>x\<bar>"
    by (simp add: e pow2_def)
  from hi have "k + 1 \<le> 2 ^ nat (bitlen k)"
    by simp
  then have "real_of_int (k + 1) \<le> real_of_int (2 ^ nat (bitlen k))"
    by (simp only: of_int_le_iff)
  moreover have "\<bar>x\<bar> < real_of_int (k + 1)"
    by (simp add: k_def)
  ultimately have "\<bar>x\<bar> < real_of_int (2 ^ nat (bitlen k))"
    by linarith
  then have "\<bar>x\<bar> < 2 ^ nat (bitlen k)"
    by simp
  with b have 2: "\<bar>x\<bar> < pow2 (expo x + 1)"
    by (simp add: e pow2_def)
  from 1 2 show ?thesis ..
next
  case False
  from assms have pos: "0 < \<bar>x\<bar>"
    by simp
  define m where "m = \<lceil>1 / \<bar>x\<bar>\<rceil>"
  from False pos have "1 < 1 / \<bar>x\<bar>"
    by simp
  then have m: "0 < m - 1"
    by (simp add: m_def less_ceiling_iff)
  define b where "b = bitlen (m - 1)"
  from m have b: "1 \<le> b"
    using bitlen_ge_iff_power [of 1 "m - 1"] by (simp add: b_def)
  from bitlen_bounds [OF m] have lo: "2 ^ nat (b - 1) \<le> m - 1" and hi: "m - 1 < 2 ^ nat b"
    by (simp_all add: b_def)
  have e: "expo x = - b"
    using False by (simp add: expo_def m_def b_def)
  from hi have "m \<le> 2 ^ nat b"
    by simp
  then have "real_of_int m \<le> real_of_int (2 ^ nat b)"
    by (simp only: of_int_le_iff)
  moreover have "1 / \<bar>x\<bar> \<le> real_of_int m"
    by (simp add: m_def)
  ultimately have "1 / \<bar>x\<bar> \<le> real_of_int (2 ^ nat b)"
    by linarith
  then have "1 / \<bar>x\<bar> \<le> 2 ^ nat b"
    by simp
  with pos have "1 / 2 ^ nat b \<le> \<bar>x\<bar>"
    by (simp add: field_simps)
  with b have 1: "pow2 (expo x) \<le> \<bar>x\<bar>"
    by (simp add: e pow2_def)
  from lo have "real_of_int (2 ^ nat (b - 1)) \<le> real_of_int (m - 1)"
    by (simp only: of_int_le_iff)
  moreover have "real_of_int (m - 1) < 1 / \<bar>x\<bar>"
    by (simp add: m_def) linarith
  ultimately have "real_of_int (2 ^ nat (b - 1)) < 1 / \<bar>x\<bar>"
    by linarith
  then have "2 ^ nat (b - 1) < 1 / \<bar>x\<bar>"
    by simp
  with pos have lt: "\<bar>x\<bar> < 1 / 2 ^ nat (b - 1)"
    by (simp add: field_simps)
  have "pow2 (- b + 1) = 1 / 2 ^ nat (b - 1)"
  proof (cases "b = 1")
    case True
    then show ?thesis by (simp add: pow2_def)
  next
    case False
    with b have "- b + 1 < 0" by simp
    then show ?thesis by (simp add: pow2_def)
  qed
  with lt have 2: "\<bar>x\<bar> < pow2 (expo x + 1)"
    by (simp add: e)
  from 1 2 show ?thesis ..
qed

lemma round_even_error: "\<bar>real_of_int (round_even y) - y\<bar> \<le> 1 / 2"
  unfolding round_even_def by (auto simp add: abs_if) linarith+


lemma pow2_powr: "pow2 e = 2 powr real_of_int e"
proof (cases "0 \<le> e")
  case True
  then have "2 powr real_of_int e = 2 powr real (nat e)"
    by simp
  also have "\<dots> = 2 ^ nat e"
    by (rule powr_realpow) simp
  finally show ?thesis
    using True by (simp add: pow2_def)
next
  case False
  then have "2 powr real_of_int e = 2 powr (- real (nat (- e)))"
    by simp
  also have "\<dots> = 1 / 2 powr real (nat (- e))"
    by (simp add: powr_minus divide_inverse)
  also have "2 powr real (nat (- e)) = 2 ^ nat (- e)"
    by (rule powr_realpow) simp
  finally show ?thesis
    using False by (simp add: pow2_def)
qed

lemma pow2_add: "pow2 (a + b) = pow2 a * pow2 b"
  by (simp add: pow2_powr powr_add)

lemma pow2_mono: "a \<le> b \<Longrightarrow> pow2 a \<le> pow2 b"
  by (simp add: pow2_powr)

lemma dbl_error: "\<bar>dbl x - x\<bar> \<le> pow2 (max (expo x) (- 1022) - 52) / 2"
proof (cases "x = 0")
  case True
  then show ?thesis
    using pow2_pos [of "max (expo x) (- 1022) - 52"] by (simp add: dbl_def)
next
  case False
  define u where "u = pow2 (max (expo x) (- 1022) - 52)"
  have u: "0 < u"
    by (simp add: u_def pow2_pos)
  have "dbl x - x = (real_of_int (round_even (x / u)) - x / u) * u"
    using False u by (simp add: dbl_def u_def [symmetric] algebra_simps)
  then have "\<bar>dbl x - x\<bar> = \<bar>real_of_int (round_even (x / u)) - x / u\<bar> * u"
    using u by (simp add: abs_mult)
  also have "\<dots> \<le> 1 / 2 * u"
    using u round_even_error [of "x / u"] by (intro mult_right_mono) simp_all
  finally show ?thesis
    by (simp add: u_def)
qed

text \<open>Away from the smallest doubles the error is at most \<open>2 ^ (- 53)\<close> of the number.\<close>

lemma dbl_relative_error:
  assumes "pow2 (- 1022) \<le> \<bar>x\<bar>"
  shows "\<bar>dbl x - x\<bar> \<le> \<bar>x\<bar> / 2 ^ 53"
proof -
  from assms pow2_pos [of "- 1022"] have x: "x \<noteq> 0"
    by auto
  from expo_bounds [OF x] have lo: "pow2 (expo x) \<le> \<bar>x\<bar>" and hi: "\<bar>x\<bar> < pow2 (expo x + 1)"
    by simp_all
  have e: "- 1022 \<le> expo x"
  proof (rule ccontr)
    assume "\<not> - 1022 \<le> expo x"
    then have "pow2 (expo x + 1) \<le> pow2 (- 1022)"
      by (intro pow2_mono) simp
    with hi assms show False
      by simp
  qed
  have "pow2 (expo x - 52) / 2 = pow2 (expo x) * pow2 (- 53)"
    using pow2_add [of "expo x" "- 53"] pow2_add [of "expo x - 52" "- 1"]
    by (simp add: pow2_def)
  also have "\<dots> \<le> \<bar>x\<bar> * pow2 (- 53)"
    using lo pow2_pos [of "- 53"] by (intro mult_right_mono) simp_all
  finally have "pow2 (expo x - 52) / 2 \<le> \<bar>x\<bar> / 2 ^ 53"
    by (simp add: pow2_def)
  with dbl_error [of x] e show ?thesis
    by (simp add: max_def)
qed

lemma dbl_ge_half:
  assumes "pow2 (- 1022) \<le> x"
  shows "x / 2 \<le> dbl x"
proof -
  from assms pow2_pos [of "- 1022"] have x: "0 < x"
    by linarith
  with assms dbl_relative_error [of x] have "\<bar>dbl x - x\<bar> \<le> x / 2 ^ 53"
    by simp
  moreover from x have "x / 2 ^ 53 \<le> x / 2"
    by (intro divide_left_mono) simp_all
  ultimately show ?thesis
    by linarith
qed

text \<open>
  One pass of the loop takes at least half an interval from the accumulator, as long
  as the accumulator is not astronomically larger than the interval.
\<close>

lemma dbl_step_down:
  assumes "pow2 (- 1000) \<le> v" and "v \<le> a" and "a \<le> 2 ^ 50 * v"
  shows "dbl (a - v) \<le> a - v / 2"
proof -
  from assms(1) pow2_pos [of "- 1000"] have v: "0 < v"
    by linarith
  have "\<bar>dbl (a - v) - (a - v)\<bar> \<le> v / 2"
  proof (cases "pow2 (- 1022) \<le> \<bar>a - v\<bar>")
    case True
    then have "\<bar>dbl (a - v) - (a - v)\<bar> \<le> \<bar>a - v\<bar> / 2 ^ 53"
      by (rule dbl_relative_error)
    also have "\<dots> \<le> a / 2 ^ 53"
      using assms(2) v by (intro divide_right_mono) simp_all
    also have "\<dots> \<le> 2 ^ 50 * v / 2 ^ 53"
      using assms(3) by (intro divide_right_mono) simp_all
    also have "\<dots> \<le> v / 2"
      using v by simp
    finally show ?thesis .
  next
    case False
    show ?thesis
    proof (cases "a - v = 0")
      case True
      with v show ?thesis
        by (simp add: dbl_def)
    next
      case nz: False
      have "expo (a - v) < - 1022"
      proof (rule ccontr)
        assume "\<not> expo (a - v) < - 1022"
        then have "pow2 (- 1022) \<le> pow2 (expo (a - v))"
          by (intro pow2_mono) simp
        with expo_bounds [OF nz] False show False
          by simp
      qed
      then have "max (expo (a - v)) (- 1022) - 52 = - 1074"
        by simp
      then have "pow2 (max (expo (a - v)) (- 1022) - 52) / 2 \<le> pow2 (- 1000) / 2"
        by (simp add: pow2_def)
      with dbl_error [of "a - v"] assms(1) show ?thesis
        by linarith
    qed
  qed
  then show ?thesis
    by linarith
qed

lemma drain_reaches_bounded:
  assumes "pow2 (- 1000) \<le> v"
  shows "a < v + real N * (v / 2) \<Longrightarrow> a \<le> 2 ^ 50 * v \<Longrightarrow>
    \<exists>n. (\<forall>k<n. v \<le> drain v a k) \<and> drain v a n < v"
proof (induction N arbitrary: a)
  case 0
  then have "drain v a 0 < v"
    by simp
  then show ?case
    by (intro exI [of _ 0]) simp
next
  case (Suc N)
  show ?case
  proof (cases "a < v")
    case True
    then show ?thesis
      by (intro exI [of _ 0]) simp
  next
    case False
    then have ge: "v \<le> a"
      by simp
    from assms ge Suc.prems(2) have down: "dbl (a - v) \<le> a - v / 2"
      by (rule dbl_step_down)
    moreover have "real (Suc N) * (v / 2) = real N * (v / 2) + v / 2"
      by (simp add: algebra_simps)
    ultimately have "dbl (a - v) < v + real N * (v / 2)"
      using Suc.prems(1) by linarith
    moreover from assms pow2_pos [of "- 1000"] have "0 < v"
      by linarith
    with down Suc.prems(2) have "dbl (a - v) \<le> 2 ^ 50 * v"
      by linarith
    ultimately obtain n where n: "\<forall>k<n. v \<le> drain v (dbl (a - v)) k"
      "drain v (dbl (a - v)) n < v"
      using Suc.IH by blast
    have "\<forall>k<Suc n. v \<le> drain v a k"
    proof (intro allI impI)
      fix k assume "k < Suc n"
      then show "v \<le> drain v a k"
        using ge n(1) by (cases k) simp_all
    qed
    moreover from n(2) have "drain v a (Suc n) < v"
      by simp
    ultimately show ?thesis
      by blast
  qed
qed

lemma drain_reaches:
  assumes "pow2 (- 1000) \<le> v" and "a \<le> 2 ^ 50 * v"
  shows "\<exists>n. (\<forall>k<n. v \<le> drain v a k) \<and> drain v a n < v"
proof -
  from assms(1) pow2_pos [of "- 1000"] have v: "0 < v"
    by linarith
  define N where "N = nat \<lceil>2 * a / v\<rceil>"
  have "2 * a / v \<le> real N"
    unfolding N_def by linarith
  with v have "a \<le> real N * (v / 2)"
    by (simp add: field_simps)
  with v have "a < v + real N * (v / 2)"
    by linarith
  then show ?thesis
    using drain_reaches_bounded [OF assms(1) _ assms(2)] by blast
qed

lemma interval_bounds:
  assumes "0 < m" and "m \<le> MAX_SPEED"
  shows "1 / 28 \<le> dbl (1 / real_of_int m)"
proof -
  from assms have m: "0 < real_of_int m" "real_of_int m \<le> 14"
    by (simp_all add: MAX_SPEED_def)
  then have "1 / 14 \<le> 1 / real_of_int m"
    by (intro divide_left_mono) simp_all
  moreover have "pow2 (- 1022) \<le> 1 / 14"
    by (simp add: pow2_def)
  ultimately have "(1 / real_of_int m) / 2 \<le> dbl (1 / real_of_int m)"
    by (intro dbl_ge_half) linarith
  moreover from \<open>1 / 14 \<le> 1 / real_of_int m\<close> have "1 / 28 \<le> (1 / real_of_int m) / 2"
    by simp
  ultimately show ?thesis
    by linarith
qed

lemma animate_returns_in_play:
  assumes "0 < movesPerSecond s" and "movesPerSecond s \<le> MAX_SPEED"
    and "dbl (accumulator s + frameDelta ts s) \<le> 1000"
  shows "\<exists>n. (\<forall>k<n. dbl (1 / real_of_int (movesPerSecond s)) \<le>
             drain (dbl (1 / real_of_int (movesPerSecond s)))
               (dbl (accumulator s + frameDelta ts s)) k) \<and>
    drain (dbl (1 / real_of_int (movesPerSecond s)))
      (dbl (accumulator s + frameDelta ts s)) n < dbl (1 / real_of_int (movesPerSecond s)) \<and>
    animate ts s = Some (ticks n (s\<lparr>lastTime := ts,
      accumulator := drain (dbl (1 / real_of_int (movesPerSecond s)))
        (dbl (accumulator s + frameDelta ts s)) n\<rparr>))"
proof -
  define v where "v = dbl (1 / real_of_int (movesPerSecond s))"
  define a where "a = dbl (accumulator s + frameDelta ts s)"
  from assms(1,2) have v: "1 / 28 \<le> v"
    unfolding v_def by (rule interval_bounds)
  have "pow2 (- 1000) \<le> 1 / 28"
    by (simp add: pow2_def)
  with v have "pow2 (- 1000) \<le> v"
    by linarith
  moreover from v assms(3) have "a \<le> 2 ^ 50 * v"
    by (simp add: a_def)
  ultimately obtain n where n: "\<forall>k<n. v \<le> drain v a k" "drain v a n < v"
    using drain_reaches by blast
  from assms(1) have "stepIntervalOf (movesPerSecond s) = Some v"
    by (simp add: stepIntervalOf_def v_def)
  from animate_returns [OF this a_def n]
  have "animate ts s = Some (ticks n (s\<lparr>lastTime := ts, accumulator := drain v a n\<rparr>))" .
  with n show ?thesis
    unfolding v_def a_def by blast
qed

text \<open>The doubles that occur in the examples.\<close>

lemma dbl_tenth: "dbl (1 / 10) = 3602879701896397 / 36028797018963968"
  by (subst dbl_at [where e = "- 4"]) (simp_all add: pow2_def round_even_def)

lemma dbl_twentieth: "dbl (1 / 20) = 3602879701896397 / 72057594037927936"
  by (subst dbl_at [where e = "- 5"]) (simp_all add: pow2_def round_even_def)

lemma dbl_eleventh: "dbl (1 / 11) = 3275345183542179 / 36028797018963968"
  by (subst dbl_at [where e = "- 4"]) (simp_all add: pow2_def round_even_def)

lemma dbl_twelfth: "dbl (1 / 12) = 6004799503160661 / 72057594037927936"
  by (subst dbl_at [where e = "- 4"]) (simp_all add: pow2_def round_even_def)

lemma dbl_2_25: "dbl (2 / 25) = 5764607523034235 / 72057594037927936"
  by (subst dbl_at [where e = "- 4"]) (simp_all add: pow2_def round_even_def)

lemma dbl_100: "dbl 100 = 100"
  by (subst dbl_at [where e = 6]) (simp_all add: pow2_def round_even_def)

lemma dbl_50: "dbl 50 = 50"
  by (subst dbl_at [where e = 5]) (simp_all add: pow2_def round_even_def)

text \<open>The frame at time 100 from \<open>speedUp\<close>.\<close>

lemma speedUp_sum:
  "dbl (5764607523034235 / 72057594037927936 + 3602879701896397 / 36028797018963968) =
     3242591731706757 / 18014398509481984"
  by (subst dbl_at [where e = "- 3"]) (simp_all add: pow2_def round_even_def)

lemma speedUp_diff:
  "dbl (3242591731706757 / 18014398509481984 - 3275345183542179 / 36028797018963968) =
     3209838279871335 / 36028797018963968"
  by (subst dbl_at [where e = "- 4"]) (simp_all add: pow2_def round_even_def)

lemma speedUp_fields:
  "snake speedUp = map (\<lambda>i. (int i, 5)) [0 ..< 24] @ [(23, 6), (22, 6), (21, 6)]"
  "direction speedUp = (- 1, 0)" "inputQueue speedUp = []" "food speedUp = Some (20, 6)"
  "\<not> isPaused speedUp" "\<not> isGameOver speedUp" "score speedUp = 23"
  "movesPerSecond speedUp = 11" "lastTime speedUp = 0"
  "accumulator speedUp = 5764607523034235 / 72057594037927936"
  "rand speedUp = randOf []" "randPos speedUp = 0"
  by (simp_all add: speedUp_def dbl_2_25)

lemma speedUp_interval: "stepIntervalOf (movesPerSecond speedUp) = Some (3275345183542179 / 36028797018963968)"
  by (simp add: stepIntervalOf_def speedUp_fields dbl_eleventh)

lemma speedUp_delta: "frameDelta 100 speedUp = 3602879701896397 / 36028797018963968"
  by (simp add: frameDelta_def speedUp_fields dbl_100 dbl_tenth)

lemma speedUp_start:
  "dbl (accumulator speedUp + frameDelta 100 speedUp) = 3242591731706757 / 18014398509481984"
  by (simp only: speedUp_fields speedUp_delta speedUp_sum)

lemma speedUp_drain:
  "drain (3275345183542179 / 36028797018963968) (3242591731706757 / 18014398509481984) (Suc 0) =
     3209838279871335 / 36028797018963968"
  by (simp only: drain.simps speedUp_diff)

lemma placeFood_first_free:
  assumes "drawCell (rand s) (randPos s) \<notin> set (snake s)"
  shows "placeFood s = s\<lparr>food := Some (drawCell (rand s) (randPos s)), randPos := randPos s + 2\<rparr>"
  using assms by (simp add: placeFood_def placeFood_loop_stop)

lemma speedUp_tick:
  "tick (speedUp\<lparr>lastTime := 100, accumulator := 3209838279871335 / 36028797018963968\<rparr>) =
     Inr speedUpAfter"
proof -
  let ?t = "speedUp\<lparr>lastTime := 100, accumulator := 3209838279871335 / 36028797018963968\<rparr>"
  have c: "consume ?t = ?t"
    by (simp add: consume_empty speedUp_fields)
  have nh: "newHeadOf ?t = (20, 6)"
    by (simp add: newHeadOf_def speedUp_fields)
  have "(20, 6) \<notin> set (snake ?t)"
    by (auto simp add: speedUp_fields)
  then have "tick ?t = Inr (winCheck (eat ((consume ?t)\<lparr>snake := snake ?t @ [newHeadOf (consume ?t)]\<rparr>)))"
    by (intro tick_eat) (simp_all add: c nh speedUp_fields outOfGrid_def GRID_CELLS_def)
  then have t: "tick ?t = Inr (winCheck (eat (?t\<lparr>snake := snake ?t @ [(20, 6)]\<rparr>)))"
    by (simp only: c nh)
  have "eat (?t\<lparr>snake := snake ?t @ [(20, 6)]\<rparr>) = speedUpAfter"
    apply (simp add: eat_def setHighScore_def speedUp_def speedUpAfter_def MAX_SPEED_def
        BASE_SPEED_def)
    apply (subst placeFood_first_free)
     apply (auto simp add: drawCell_zero)
    done
  moreover have "winCheck speedUpAfter = speedUpAfter"
    by (simp add: winCheck_def speedUpAfter_def GRID_CELLS_def)
  ultimately show ?thesis
    by (simp only: t)
qed

lemma speedUp_frame: "animate 100 speedUp = Some (Inr speedUpAfter)"
proof -
  have "animate 100 speedUp = Some (ticks (Suc 0) (speedUp\<lparr>lastTime := 100,
      accumulator := drain (3275345183542179 / 36028797018963968)
        (3242591731706757 / 18014398509481984) (Suc 0)\<rparr>))"
  proof (rule animate_returns [OF speedUp_interval speedUp_start [symmetric]])
    show "\<forall>k<Suc 0. (3275345183542179 / 36028797018963968 :: real) \<le>
        drain (3275345183542179 / 36028797018963968) (3242591731706757 / 18014398509481984) k"
      by simp
    show "drain (3275345183542179 / 36028797018963968) (3242591731706757 / 18014398509481984) (Suc 0) <
        3275345183542179 / 36028797018963968"
      unfolding speedUp_drain by simp
  qed
  then show ?thesis
    by (simp only: speedUp_drain ticks_one speedUp_tick)
qed

text \<open>The frame at time 50 from \<open>cruise\<close>.\<close>

lemma cruise_sum:
  "dbl (1 / 4 + 3602879701896397 / 72057594037927936) = 5404319552844595 / 18014398509481984"
  by (subst dbl_at [where e = "- 2"]) (simp_all add: pow2_def round_even_def)

lemma cruise_diff1:
  "dbl (5404319552844595 / 18014398509481984 - 3602879701896397 / 36028797018963968) =
     7205759403792793 / 36028797018963968"
  by (subst dbl_at [where e = "- 3"]) (simp_all add: pow2_def round_even_def)

lemma cruise_diff2:
  "dbl (7205759403792793 / 36028797018963968 - 3602879701896397 / 36028797018963968) =
     900719925474099 / 9007199254740992"
  by (subst dbl_at [where e = "- 4"]) (simp_all add: pow2_def round_even_def)

lemma cruise_fields:
  "snake cruise = map (\<lambda>i. (int i, 5)) [0 ..< 20]"
  "direction cruise = (1, 0)" "inputQueue cruise = []" "food cruise = Some (0, 0)"
  "\<not> isPaused cruise" "\<not> isGameOver cruise" "movesPerSecond cruise = 10"
  "lastTime cruise = 0" "accumulator cruise = 1 / 4"
  by (simp_all add: cruise_def)

lemma cruise_interval:
  "stepIntervalOf (movesPerSecond cruise) = Some (3602879701896397 / 36028797018963968)"
  by (simp add: stepIntervalOf_def cruise_fields dbl_tenth)

lemma cruise_delta: "frameDelta 50 cruise = 3602879701896397 / 72057594037927936"
  by (simp add: frameDelta_def cruise_fields dbl_50 dbl_tenth dbl_twentieth)

lemma cruise_start:
  "dbl (accumulator cruise + frameDelta 50 cruise) = 5404319552844595 / 18014398509481984"
  by (simp only: cruise_fields cruise_delta cruise_sum)

lemma cruise_drain:
  "drain (3602879701896397 / 36028797018963968) (5404319552844595 / 18014398509481984) 0 =
     5404319552844595 / 18014398509481984"
  "drain (3602879701896397 / 36028797018963968) (5404319552844595 / 18014398509481984) (Suc 0) =
     7205759403792793 / 36028797018963968"
  "drain (3602879701896397 / 36028797018963968) (5404319552844595 / 18014398509481984) (Suc (Suc 0)) =
     900719925474099 / 9007199254740992"
  by (simp_all only: drain.simps cruise_diff1 cruise_diff2)

lemma cruise_ticks:
  "ticks (Suc (Suc 0)) (cruise\<lparr>lastTime := 50,
     accumulator := 900719925474099 / 9007199254740992\<rparr>) = Inr cruiseAfter"
proof -
  let ?c0 = "cruise\<lparr>lastTime := 50, accumulator := 900719925474099 / 9007199254740992\<rparr>"
  let ?c1 = "?c0\<lparr>snake := map (\<lambda>i. (int i, 5)) [1 ..< 21]\<rparr>"
  have c0: "consume ?c0 = ?c0" and c1: "consume ?c1 = ?c1"
    by (simp_all add: consume_empty cruise_fields)
  have n0: "newHeadOf ?c0 = (20, 5)" and n1: "newHeadOf ?c1 = (21, 5)"
    by (simp_all add: newHeadOf_def cruise_fields last_map)
  have "tick ?c0 = Inr (winCheck ((consume ?c0)\<lparr>snake := tl (snake ?c0) @ [newHeadOf (consume ?c0)]\<rparr>))"
  proof (rule tick_move [where f = "(0, 0)"])
    show "newHeadOf (consume ?c0) \<notin> set (snake ?c0)"
      unfolding c0 n0 by (auto simp add: cruise_fields)
    show "\<not> outOfGrid (newHeadOf (consume ?c0))"
      unfolding c0 n0 by (simp add: outOfGrid_def GRID_CELLS_def)
    show "(0, 0) \<noteq> newHeadOf (consume ?c0)"
      unfolding c0 n0 by simp
  qed (simp_all add: cruise_fields)
  then have t0: "tick ?c0 = Inr (winCheck (?c0\<lparr>snake := tl (snake ?c0) @ [(20, 5)]\<rparr>))"
    by (simp only: c0 n0)
  have "tick ?c1 = Inr (winCheck ((consume ?c1)\<lparr>snake := tl (snake ?c1) @ [newHeadOf (consume ?c1)]\<rparr>))"
  proof (rule tick_move [where f = "(0, 0)"])
    show "newHeadOf (consume ?c1) \<notin> set (snake ?c1)"
      unfolding c1 n1 by auto
    show "\<not> outOfGrid (newHeadOf (consume ?c1))"
      unfolding c1 n1 by (simp add: outOfGrid_def GRID_CELLS_def)
    show "(0, 0) \<noteq> newHeadOf (consume ?c1)"
      unfolding c1 n1 by simp
  qed (simp_all add: cruise_fields)
  then have t1: "tick ?c1 = Inr (winCheck (?c1\<lparr>snake := tl (snake ?c1) @ [(21, 5)]\<rparr>))"
    by (simp only: c1 n1)
  have "winCheck (?c0\<lparr>snake := tl (snake ?c0) @ [(20, 5)]\<rparr>) = ?c1"
    by (simp add: winCheck_def cruise_def GRID_CELLS_def upt_rec)
  moreover have "winCheck (?c1\<lparr>snake := tl (snake ?c1) @ [(21, 5)]\<rparr>) = cruiseAfter"
    by (simp add: winCheck_def cruise_def cruiseAfter_def GRID_CELLS_def upt_rec)
  ultimately show ?thesis
    using t0 t1 by simp
qed

text \<open>
  C7, as the code has it. One frame takes \<open>dt\<close>, the time since the last frame in
  seconds cut off at the double \<^verbatim>\<open>0.1\<close>, adds it to the accumulator and runs the loop
  with the interval \<open>v\<close>, which is \<^verbatim>\<open>1.0 / movesPerSecond\<close> computed once from the speed
  the frame finds. With \<open>a\<close> the accumulator after the addition: if \<open>n\<close> subtractions
  of \<open>v\<close> are made with the accumulator at least \<open>v\<close> each time, and it is below \<open>v\<close>
  after them, the frame returns after exactly \<open>n\<close> calls of \<^verbatim>\<open>tick\<close>; for a speed from
  1 to 14 and at most 1000 seconds in the accumulator there is such an \<open>n\<close>; and when
  the loop exits, the accumulator is less than \<open>v\<close>.
\<close>

theorem animate_frame:
  assumes "stepIntervalOf (movesPerSecond s) = Some v"
    and "a = dbl (accumulator s + frameDelta ts s)"
  shows "v = dbl (1 / real_of_int (movesPerSecond s)) \<and>
    frameDelta ts s = min (dbl (1 / 10)) (dbl (dbl (ts - lastTime s) / 1000)) \<and>
    frameDelta ts s \<le> dbl (1 / 10) \<and>
    ((\<forall>k<n. v \<le> drain v a k) \<and> drain v a n < v \<longrightarrow>
       animate ts s = Some (ticks n (s\<lparr>lastTime := ts, accumulator := drain v a n\<rparr>))) \<and>
    (0 < movesPerSecond s \<and> movesPerSecond s \<le> MAX_SPEED \<and> a \<le> 1000 \<longrightarrow>
       (\<exists>n. (\<forall>k<n. v \<le> drain v a k) \<and> drain v a n < v)) \<and>
    (animate ts s = Some (Inr s') \<longrightarrow> accumulator s' < v)"
proof -
  from assms(1) have v: "v = dbl (1 / real_of_int (movesPerSecond s))"
    by (simp add: stepIntervalOf_def split: if_splits)
  have d: "frameDelta ts s = min (dbl (1 / 10)) (dbl (dbl (ts - lastTime s) / 1000))"
    by (simp add: frameDelta_def)
  have run: "(\<forall>k<n. v \<le> drain v a k) \<and> drain v a n < v \<longrightarrow>
       animate ts s = Some (ticks n (s\<lparr>lastTime := ts, accumulator := drain v a n\<rparr>))"
    using animate_returns [OF assms] by blast
  have ends: "0 < movesPerSecond s \<and> movesPerSecond s \<le> MAX_SPEED \<and> a \<le> 1000 \<longrightarrow>
       (\<exists>n. (\<forall>k<n. v \<le> drain v a k) \<and> drain v a n < v)"
    using animate_returns_in_play [of s ts] unfolding v assms(2) by blast
  have out: "animate ts s = Some (Inr s') \<longrightarrow> accumulator s' < v"
    using animate_exit [OF assms] by auto
  from v d frameDelta_le [of ts s] run ends out show ?thesis
    by blast
qed

theorem animate_frame_witness:
  "animate 50 cruise = Some (Inr cruiseAfter) \<and>
   accumulator cruiseAfter = 900719925474099 / 9007199254740992 \<and>
   accumulator cruiseAfter < dbl (1 / 10)"
proof -
  have "\<forall>k<Suc (Suc 0). (3602879701896397 / 36028797018963968 :: real) \<le>
      drain (3602879701896397 / 36028797018963968) (5404319552844595 / 18014398509481984) k"
  proof (intro allI impI)
    fix k :: nat assume "k < Suc (Suc 0)"
    then have "k = 0 \<or> k = Suc 0"
      by auto
    then show "(3602879701896397 / 36028797018963968 :: real) \<le>
      drain (3602879701896397 / 36028797018963968) (5404319552844595 / 18014398509481984) k"
      using cruise_drain(1,2) by auto
  qed
  moreover have "drain (3602879701896397 / 36028797018963968)
      (5404319552844595 / 18014398509481984) (Suc (Suc 0)) < 3602879701896397 / 36028797018963968"
    unfolding cruise_drain by simp
  ultimately have "animate 50 cruise = Some (ticks (Suc (Suc 0)) (cruise\<lparr>lastTime := 50,
      accumulator := drain (3602879701896397 / 36028797018963968)
        (5404319552844595 / 18014398509481984) (Suc (Suc 0))\<rparr>))"
    using animate_frame [OF cruise_interval cruise_start [symmetric], of "Suc (Suc 0)"]
    by blast
  then have "animate 50 cruise = Some (Inr cruiseAfter)"
    by (simp only: cruise_drain cruise_ticks)
  then show ?thesis
    by (simp add: cruiseAfter_def dbl_tenth)
qed

text \<open>
  The accumulator a frame leaves need not be below \<open>1 / Speed\<close> for the speed the frame
  leaves: the only step of this frame raises the speed from 11 to 12, and the
  accumulator stays at or above one twelfth, as a real number and as the double
  \<^verbatim>\<open>1.0 / 12\<close>.
\<close>

theorem animate_exit_above_new_interval:
  "animate 100 speedUp = Some (Inr speedUpAfter) \<and>
   movesPerSecond speedUp = 11 \<and>
   movesPerSecond speedUpAfter = 12 \<and>
   stepIntervalOf (movesPerSecond speedUpAfter) = Some (6004799503160661 / 72057594037927936) \<and>
   6004799503160661 / 72057594037927936 \<le> accumulator speedUpAfter \<and>
   1 / 12 \<le> accumulator speedUpAfter"
  using speedUp_frame
  by (simp add: speedUp_fields speedUpAfter_def stepIntervalOf_def dbl_twelfth)



end
